theory Spec2Isabelle
  imports Main "HOL-Library.Sublist"
begin

section \<open>Timers of the browser\<close>

text \<open>
  The browser's timers are external. \<open>setTimeout\<close> returns a fresh positive handle and
  records the callback as pending; \<open>clearTimeout\<close> removes the handle from the pending
  callbacks and does nothing for a handle that is not pending. A callback is named by what
  it runs: the open timeout of the poll request at a chain position, the idle timeout of
  the poll transport, the open timeout of the primary socket, the close timeout of a
  connection. The delay is recorded with the callback; time itself is not modelled. A
  pending callback may fire at any moment, but for the order in which the browser fires
  the timers of the poll transport, which is stated with its events.
\<close>

datatype callback =
  PollOpenTimeout nat
| HttpTimeout
| SocketOpenTimeout
| CloseTimeout

record timers =
  created :: nat
  pending :: "(nat \<times> callback \<times> nat) list"

definition noTimers :: timers where
  "noTimers = \<lparr>created = 0, pending = []\<rparr>"

definition setTimeout :: "callback \<Rightarrow> nat \<Rightarrow> timers \<Rightarrow> nat \<times> timers" where
  "setTimeout cb delay env =
     (Suc (created env),
      env\<lparr>created := Suc (created env),
          pending := pending env @ [(Suc (created env), cb, delay)]\<rparr>)"

definition clearTimeout :: "nat \<Rightarrow> timers \<Rightarrow> timers" where
  "clearTimeout h env = env\<lparr>pending := filter (\<lambda>e. fst e \<noteq> h) (pending env)\<rparr>"

text \<open>\<open>clearTimeout\<close> of a field that holds a handle or \<open>null\<close>/\<open>undefined\<close>.\<close>

definition clearTimeout_opt :: "nat option \<Rightarrow> timers \<Rightarrow> timers" where
  "clearTimeout_opt h env = (case h of None \<Rightarrow> env | Some k \<Rightarrow> clearTimeout k env)"

definition is_pending :: "nat \<Rightarrow> callback \<Rightarrow> timers \<Rightarrow> bool" where
  "is_pending h cb env = (\<exists>e \<in> set (pending env). fst e = h \<and> fst (snd e) = cb)"

section \<open>Chained XHR polling: reading a streamed response\<close>

text \<open>
  The class \<open>HttpRequestLongPoll\<close> of \<open>src/lib/serverconnection.ts\<close> keeps, for one
  long-poll request, the offset \<open>index\<close> of the next unread line of the response body
  (initially 1) and a FIFO \<open>buffer\<close> of offsets of lines that were seen incomplete.
  The browser's \<open>XMLHttpRequest\<close> is external; the fields of it that the code reads
  (\<open>readyState\<close>, \<open>status\<close>, \<open>responseText\<close>) are part of the state, written by
  the environment before a handler runs.
\<close>

record XMLHttpRequest =
  readyState :: nat
  status :: nat
  responseText :: string

datatype HttpRequestLongPoll =
  HttpRequestLongPoll
    (index: nat)
    (buffer: "nat list")
    (previousRequest: "HttpRequestLongPoll option")
    (streamIndex: nat)
    (httpUrl: string)
    (xmlHttpRequest: XMLHttpRequest)

text \<open>The constructor: \<open>index = 1\<close>, \<open>buffer = []\<close>, no previous request, a fresh XHR.\<close>

definition newXMLHttpRequest :: XMLHttpRequest where
  "newXMLHttpRequest = \<lparr>readyState = 0, status = 0, responseText = []\<rparr>"

definition newHttpRequestLongPoll :: "nat \<Rightarrow> string \<Rightarrow> HttpRequestLongPoll" where
  "newHttpRequestLongPoll si url = HttpRequestLongPoll 1 [] None si url newXMLHttpRequest"

text \<open>Field assignments of the source, one function per assigned field.\<close>

fun set_index :: "nat \<Rightarrow> HttpRequestLongPoll \<Rightarrow> HttpRequestLongPoll" where
  "set_index i (HttpRequestLongPoll _ b p s u x) = HttpRequestLongPoll i b p s u x"

fun set_buffer :: "nat list \<Rightarrow> HttpRequestLongPoll \<Rightarrow> HttpRequestLongPoll" where
  "set_buffer b (HttpRequestLongPoll i _ p s u x) = HttpRequestLongPoll i b p s u x"

fun set_previousRequest ::
  "HttpRequestLongPoll option \<Rightarrow> HttpRequestLongPoll \<Rightarrow> HttpRequestLongPoll" where
  "set_previousRequest p (HttpRequestLongPoll i b _ s u x) = HttpRequestLongPoll i b p s u x"

fun set_xmlHttpRequest :: "XMLHttpRequest \<Rightarrow> HttpRequestLongPoll \<Rightarrow> HttpRequestLongPoll" where
  "set_xmlHttpRequest x (HttpRequestLongPoll i b p s u _) = HttpRequestLongPoll i b p s u x"

text \<open>
  \<open>String.prototype.split("\n")\<close>: the pieces between line feeds; a body with \<open>n\<close> line
  feeds has \<open>n + 1\<close> pieces, the last one empty exactly when the body is empty or ends in a
  line feed.
\<close>

abbreviation LF :: char where
  "LF \<equiv> CHR 0x0A"

fun split_lf :: "string \<Rightarrow> string list" where
  "split_lf [] = [[]]"
| "split_lf (c # cs) =
     (if c = LF then [] # split_lf cs
      else (case split_lf cs of
              [] \<Rightarrow> [[c]]
            | l # ls \<Rightarrow> (c # l) # ls))"

definition getMessages :: "HttpRequestLongPoll \<Rightarrow> string list" where
  "getMessages r = split_lf (responseText (xmlHttpRequest r))"

text \<open>
  A JavaScript array read \<open>messages[i]\<close> is \<open>undefined\<close> out of range; \<open>JSON.parse\<close> is
  external and a parameter \<open>parse\<close> here, \<open>None\<close> standing for the \<open>SyntaxError\<close> it
  throws. \<open>JSON.parse(undefined)\<close> throws.
\<close>

definition array_get :: "'a list \<Rightarrow> nat \<Rightarrow> 'a option" where
  "array_get xs i = (if i < length xs then Some (xs ! i) else None)"

definition JSON_parse_at :: "(string \<Rightarrow> 'm option) \<Rightarrow> string list \<Rightarrow> nat \<Rightarrow> 'm option" where
  "JSON_parse_at parse messages i =
     (case array_get messages i of None \<Rightarrow> None | Some s \<Rightarrow> parse s)"

text \<open>
  The \<open>while (httpRequest.hasBufferedIndices())\<close> loop of \<open>_handleStream\<close>: pop the first
  offset, parse the line at it; on failure put the offset back at the front and leave the
  loop, otherwise emit and go on. The result is the buffer left and the messages emitted.
\<close>

fun drainBuffer ::
  "(string \<Rightarrow> 'm option) \<Rightarrow> string list \<Rightarrow> nat list \<Rightarrow> nat list \<times> 'm list" where
  "drainBuffer parse messages [] = ([], [])"
| "drainBuffer parse messages (i # rest) =
     (case JSON_parse_at parse messages i of
        None \<Rightarrow> (i # rest, [])
      | Some m \<Rightarrow>
          (case drainBuffer parse messages rest of
             (b, es) \<Rightarrow> (b, m # es)))"

text \<open>
  \<open>HttpRequest._handleStream\<close>. The result is the request after the call and the list of
  \<open>Message\<close> events emitted, in order. \<open>if (message)\<close> is false for \<open>undefined\<close> and for
  the empty string. The call to the logger on an unparsable new line is not part of the
  result.
\<close>

definition handleStream ::
  "(string \<Rightarrow> 'm option) \<Rightarrow> HttpRequestLongPoll \<Rightarrow> HttpRequestLongPoll \<times> 'm list" where
  "handleStream parse httpRequest =
     (let messages = getMessages httpRequest in
      case drainBuffer parse messages (buffer httpRequest) of
        (b, emitted) \<Rightarrow>
          (let r1 = set_buffer b httpRequest in
           case array_get messages (index r1) of
             None \<Rightarrow> (r1, emitted)
           | Some message \<Rightarrow>
               if message = [] then (r1, emitted)
               else
                 (let r2 = set_index (index r1 + 1) r1 in
                  if index r2 = length messages
                  then (set_buffer (buffer r2 @ [index r2 - 1]) r2, emitted)
                  else (case parse message of
                          None \<Rightarrow> (r2, emitted)
                        | Some m \<Rightarrow> (r2, emitted @ [m])))))"

text \<open>
  A response snapshot arrives: the environment replaces \<open>responseText\<close> and the success
  callback runs \<open>_handleStream\<close>. \<open>feed\<close> does this for a list of snapshots and collects
  the emitted messages.
\<close>

definition receive :: "string \<Rightarrow> HttpRequestLongPoll \<Rightarrow> HttpRequestLongPoll" where
  "receive body r = set_xmlHttpRequest ((xmlHttpRequest r)\<lparr>responseText := body\<rparr>) r"

fun feed ::
  "(string \<Rightarrow> 'm option) \<Rightarrow> HttpRequestLongPoll \<Rightarrow> string list \<Rightarrow> HttpRequestLongPoll \<times> 'm list" where
  "feed parse r [] = (r, [])"
| "feed parse r (body # bodies) =
     (case handleStream parse (receive body r) of
        (r1, es) \<Rightarrow>
          (case feed parse r1 bodies of
             (r2, es') \<Rightarrow> (r2, es @ es')))"

subsection \<open>Basic facts about the stream handler\<close>

lemma index_set_buffer [simp]: "index (set_buffer b r) = index r"
  by (cases r) simp
lemma buffer_set_buffer [simp]: "buffer (set_buffer b r) = b"
  by (cases r) simp
lemma index_set_index [simp]: "index (set_index i r) = i"
  by (cases r) simp
lemma buffer_set_index [simp]: "buffer (set_index i r) = buffer r"
  by (cases r) simp
lemma index_receive [simp]: "index (receive body r) = index r"
  by (cases r) (simp add: receive_def)
lemma buffer_receive [simp]: "buffer (receive body r) = buffer r"
  by (cases r) (simp add: receive_def)
lemma getMessages_receive [simp]: "getMessages (receive body r) = split_lf body"
  by (cases r) (simp add: receive_def getMessages_def)
lemma getMessages_set_buffer [simp]: "getMessages (set_buffer b r) = getMessages r"
  by (cases r) (simp add: getMessages_def)

lemma split_lf_nonempty [simp]: "split_lf s \<noteq> []"
  by (induction s) (auto split: list.splits)

definition count_lf :: "string \<Rightarrow> nat" where
  "count_lf s = length (filter (\<lambda>c. c = LF) s)"

lemma length_split_lf: "length (split_lf s) = Suc (count_lf s)"
  by (induction s) (auto simp: count_lf_def split: list.splits)

lemma split_lf_single: "split_lf s = [x] \<Longrightarrow> LF \<notin> set s"
proof -
  assume "split_lf s = [x]"
  then have "count_lf s = 0" using length_split_lf [of s] by simp
  then show ?thesis by (auto simp: count_lf_def filter_empty_conv)
qed

lemma last_split_lf: "last (split_lf s) = [] \<longleftrightarrow> s = [] \<or> last s = LF"
proof (induction s)
  case Nil
  show ?case by simp
next
  case (Cons c cs)
  show ?case
  proof (cases "c = LF")
    case True
    with Cons show ?thesis by auto
  next
    case False
    obtain l ls where sp: "split_lf cs = l # ls"
      by (cases "split_lf cs") auto
    show ?thesis
    proof (cases ls)
      case Nil
      with sp have "LF \<notin> set cs" using split_lf_single by blast
      then have "cs \<noteq> [] \<Longrightarrow> last cs \<noteq> LF" using last_in_set by metis
      with False sp Nil show ?thesis by auto
    next
      case (Cons l' ls')
      with sp have "cs \<noteq> []" by auto
      with False sp Cons Cons.IH show ?thesis by auto
    qed
  qed
qed

lemma drainBuffer_stops_at_failure:
  assumes "\<forall>j \<in> set pre. JSON_parse_at parse messages j \<noteq> None"
    and "JSON_parse_at parse messages i = None"
  shows "drainBuffer parse messages (pre @ i # rest) =
     (i # rest, map (\<lambda>j. the (JSON_parse_at parse messages j)) pre)"
  using assms by (induction pre) auto

lemma drainBuffer_suffix: "suffix (fst (drainBuffer parse messages b)) b"
  by (induction b) (auto split: option.splits prod.splits simp: suffix_Cons)

lemma handleStream_index:
  "index r \<le> index (fst (handleStream parse r)) \<and> index (fst (handleStream parse r)) \<le> index r + 1"
  by (auto simp: handleStream_def Let_def split: prod.splits option.splits)

lemma handleStream_after_drain:
  "buffer (fst (handleStream parse r)) =
     fst (drainBuffer parse (getMessages r) (buffer r)) @
       buffer (fst (handleStream parse (set_buffer [] r))) \<and>
   snd (handleStream parse r) =
     snd (drainBuffer parse (getMessages r) (buffer r)) @
       snd (handleStream parse (set_buffer [] r))"
  by (auto simp: handleStream_def Let_def split: prod.splits option.splits)

lemma handleStream_empty_buffer_pushes_le1:
  "buffer (fst (handleStream parse (set_buffer [] r))) = [] \<or>
   buffer (fst (handleStream parse (set_buffer [] r))) = [index r]"
  by (auto simp: handleStream_def Let_def split: prod.splits option.splits)

subsection \<open>The last line of a snapshot\<close>

lemma array_get_last: "Suc i = length xs \<Longrightarrow> array_get xs i = Some (last xs)"
  by (cases xs rule: rev_cases) (auto simp: array_get_def nth_append)

lemma handleStream_defers_tail:
  assumes "body \<noteq> []" "last body \<noteq> LF" "Suc (index r) = length (split_lf body)"
  shows "handleStream parse (receive body r) =
     (set_buffer (fst (drainBuffer parse (split_lf body) (buffer r)) @ [index r])
        (set_index (Suc (index r))
          (set_buffer (fst (drainBuffer parse (split_lf body) (buffer r))) (receive body r))),
      snd (drainBuffer parse (split_lf body) (buffer r)))"
proof -
  have "last (split_lf body) \<noteq> []" using assms(1,2) by (simp add: last_split_lf)
  moreover have "array_get (split_lf body) (index r) = Some (last (split_lf body))"
    using assms(3) by (rule array_get_last)
  moreover have "length (split_lf body) - Suc 0 = index r" using assms(3) by simp
  ultimately show ?thesis
    using assms(3) by (simp add: handleStream_def Let_def split: prod.splits)
qed

lemma handleStream_no_push:
  assumes "Suc (index r) \<noteq> length (split_lf body) \<or> last (split_lf body) = []"
  shows "buffer (fst (handleStream parse (receive body r))) =
     fst (drainBuffer parse (split_lf body) (buffer r))"
proof -
  have "array_get (split_lf body) (index r) = Some m \<Longrightarrow> m \<noteq> [] \<Longrightarrow>
      Suc (index r) \<noteq> length (split_lf body)" for m
    using assms array_get_last [of "index r" "split_lf body"] by auto
  then show ?thesis
    by (auto simp: handleStream_def Let_def split: prod.splits option.splits)
qed

text \<open>
  Claim C5, as the code has it. For a body that does not end in a line feed, the offset of
  its last line is appended to the buffer when \<open>index\<close> stands at that line; the index
  then moves past it and the call emits only what the buffer loop emitted. When \<open>index\<close>
  stands elsewhere nothing is appended. For a body that ends in a line feed nothing is
  appended: the buffer after the call is what the buffer loop left, a suffix of the buffer
  before.
\<close>

theorem handleStream_tail_deferral:
  "(body \<noteq> [] \<and> last body \<noteq> LF \<and> Suc (index r) = length (split_lf body) \<longrightarrow>
      buffer (fst (handleStream parse (receive body r))) =
        fst (drainBuffer parse (split_lf body) (buffer r)) @ [index r] \<and>
      index (fst (handleStream parse (receive body r))) = Suc (index r) \<and>
      snd (handleStream parse (receive body r)) =
        snd (drainBuffer parse (split_lf body) (buffer r))) \<and>
   (Suc (index r) \<noteq> length (split_lf body) \<longrightarrow>
      buffer (fst (handleStream parse (receive body r))) =
        fst (drainBuffer parse (split_lf body) (buffer r))) \<and>
   (body \<noteq> [] \<and> last body = LF \<longrightarrow>
      buffer (fst (handleStream parse (receive body r))) =
        fst (drainBuffer parse (split_lf body) (buffer r)) \<and>
      suffix (buffer (fst (handleStream parse (receive body r)))) (buffer r))"
proof (intro conjI impI)
  assume a: "body \<noteq> [] \<and> last body \<noteq> LF \<and> Suc (index r) = length (split_lf body)"
  then have h: "handleStream parse (receive body r) =
     (set_buffer (fst (drainBuffer parse (split_lf body) (buffer r)) @ [index r])
        (set_index (Suc (index r))
          (set_buffer (fst (drainBuffer parse (split_lf body) (buffer r))) (receive body r))),
      snd (drainBuffer parse (split_lf body) (buffer r)))"
    using handleStream_defers_tail by blast
  show "buffer (fst (handleStream parse (receive body r))) =
        fst (drainBuffer parse (split_lf body) (buffer r)) @ [index r]"
    by (simp add: h)
  show "index (fst (handleStream parse (receive body r))) = Suc (index r)"
    by (simp add: h)
  show "snd (handleStream parse (receive body r)) =
        snd (drainBuffer parse (split_lf body) (buffer r))"
    by (simp add: h)
next
  assume "Suc (index r) \<noteq> length (split_lf body)"
  then show "buffer (fst (handleStream parse (receive body r))) =
        fst (drainBuffer parse (split_lf body) (buffer r))"
    using handleStream_no_push by blast
next
  assume a: "body \<noteq> [] \<and> last body = LF"
  then have "last (split_lf body) = []" by (simp add: last_split_lf)
  then show b: "buffer (fst (handleStream parse (receive body r))) =
        fst (drainBuffer parse (split_lf body) (buffer r))"
    using handleStream_no_push by blast
  show "suffix (buffer (fst (handleStream parse (receive body r)))) (buffer r)"
    unfolding b by (rule drainBuffer_suffix)
qed

text \<open>
  The first half of the claim fails when \<open>index\<close> is not at the last line: from the
  initial state, the body \<open>[0]\<newline>[1]\<newline>[2\<close> has no trailing line feed, yet line 1 is emitted
  and the offset of the last line is not buffered.
\<close>

theorem handleStream_tail_not_deferred:
  "''[0]\<newline>[1]\<newline>[2'' \<noteq> [] \<and> last ''[0]\<newline>[1]\<newline>[2'' \<noteq> LF \<and>
   handleStream Some (receive ''[0]\<newline>[1]\<newline>[2'' (newHttpRequestLongPoll 0 ''u'')) =
     (HttpRequestLongPoll 2 [] None 0 ''u''
        \<lparr>readyState = 0, status = 0, responseText = ''[0]\<newline>[1]\<newline>[2''\<rparr>, [''[1]''])"
  by (simp add: handleStream_def receive_def newHttpRequestLongPoll_def newXMLHttpRequest_def
      getMessages_def array_get_def)

theorem handleStream_tail_deferral_witness:
  "last ''[0]\<newline>[1'' \<noteq> LF \<and>
   Suc (index (newHttpRequestLongPoll 0 ''u'')) = length (split_lf ''[0]\<newline>[1'') \<and>
   buffer (fst (handleStream Some (receive ''[0]\<newline>[1'' (newHttpRequestLongPoll 0 ''u'')))) = [1] \<and>
   snd (handleStream Some (receive ''[0]\<newline>[1'' (newHttpRequestLongPoll 0 ''u''))) = [] \<and>
   last ''[0]\<newline>[1]\<newline>'' = LF \<and>
   buffer (fst (handleStream Some (receive ''[0]\<newline>[1]\<newline>''
      (HttpRequestLongPoll 2 [] None 0 ''u'' newXMLHttpRequest)))) = []"
proof -
  let ?r0 = "newHttpRequestLongPoll 0 ''u''"
  let ?r2 = "HttpRequestLongPoll 2 [] None 0 ''u'' newXMLHttpRequest"
  have a: "''[0]\<newline>[1'' \<noteq> [] \<and> last ''[0]\<newline>[1'' \<noteq> LF \<and>
      Suc (index ?r0) = length (split_lf ''[0]\<newline>[1'')"
    by (simp add: newHttpRequestLongPoll_def)
  have d: "fst (drainBuffer Some (split_lf ''[0]\<newline>[1'') (buffer ?r0)) @ [index ?r0] = [1] \<and>
      snd (drainBuffer Some (split_lf ''[0]\<newline>[1'') (buffer ?r0)) = ([] :: string list)"
    by (simp add: newHttpRequestLongPoll_def)
  have b: "buffer (fst (handleStream Some (receive ''[0]\<newline>[1'' ?r0))) = [1] \<and>
      snd (handleStream Some (receive ''[0]\<newline>[1'' ?r0)) = []"
    using handleStream_tail_deferral [of "''[0]\<newline>[1''" ?r0 Some] a d by metis
  have c: "''[0]\<newline>[1]\<newline>'' \<noteq> [] \<and> last ''[0]\<newline>[1]\<newline>'' = LF" by simp
  have e: "fst (drainBuffer Some (split_lf ''[0]\<newline>[1]\<newline>'') (buffer ?r2)) = ([] :: nat list)"
    by simp
  have f: "buffer (fst (handleStream Some (receive ''[0]\<newline>[1]\<newline>'' ?r2))) = []"
    using handleStream_tail_deferral [of "''[0]\<newline>[1]\<newline>''" ?r2 Some] c e by metis
  show ?thesis using a b c f by blast
qed

subsection \<open>One call of the handler\<close>

text \<open>
  A parser that rejects one line, and a request in the middle of a stream: three offsets
  are buffered, the line at the second of them does not parse, and \<open>index\<close> stands at a
  complete line.
\<close>

definition parse_unless_bad :: "string \<Rightarrow> string option" where
  "parse_unless_bad s = (if s = ''bad'' then None else Some s)"

definition half_drained :: HttpRequestLongPoll where
  "half_drained = HttpRequestLongPoll 4 [1, 2, 3] None 0 ''u''
     \<lparr>readyState = 3, status = 200, responseText = ''[0]\<newline>[1]\<newline>bad\<newline>[3]\<newline>[4]\<newline>''\<rparr>"

lemma handleStream_empty_buffer_emits_le1:
  "length (snd (handleStream parse (set_buffer [] r))) \<le> 1"
  by (auto simp: handleStream_def Let_def split: prod.splits option.splits)

text \<open>
  Claim C10, as the code has it. One call of \<open>_handleStream\<close> advances \<open>index\<close> by at
  most one. When the buffered offsets \<open>pre\<close> parse and the line at the next buffered offset
  \<open>i\<close> does not, the buffer loop emits the messages of \<open>pre\<close>, in order, and stops with
  \<open>i\<close> back at the front: the buffer of the request is then \<open>i # rest\<close>, followed at most
  by the offset \<open>index\<close> of a deferred last line, and nothing behind \<open>i\<close> is emitted from
  the buffer. The line at \<open>index\<close> is still handled as in a call with an empty buffer, so
  at most one more message (a new one) follows the messages of \<open>pre\<close>.
\<close>

theorem handleStream_step_and_failed_buffer:
  "index r \<le> index (fst (handleStream parse r)) \<and>
   index (fst (handleStream parse r)) \<le> index r + 1 \<and>
   (\<forall>pre i rest.
      buffer r = pre @ i # rest \<and>
      (\<forall>j \<in> set pre. JSON_parse_at parse (getMessages r) j \<noteq> None) \<and>
      JSON_parse_at parse (getMessages r) i = None \<longrightarrow>
        drainBuffer parse (getMessages r) (buffer r) =
          (i # rest, map (\<lambda>j. the (JSON_parse_at parse (getMessages r) j)) pre) \<and>
        (buffer (fst (handleStream parse r)) = i # rest \<or>
         buffer (fst (handleStream parse r)) = i # rest @ [index r]) \<and>
        snd (handleStream parse r) =
          map (\<lambda>j. the (JSON_parse_at parse (getMessages r) j)) pre @
            snd (handleStream parse (set_buffer [] r)) \<and>
        length (snd (handleStream parse (set_buffer [] r))) \<le> 1)"
proof (intro conjI allI impI)
  show "index r \<le> index (fst (handleStream parse r))"
    using handleStream_index [of r parse] by simp
  show "index (fst (handleStream parse r)) \<le> index r + 1"
    using handleStream_index [of r parse] by simp
next
  fix pre i rest
  assume a: "buffer r = pre @ i # rest \<and>
      (\<forall>j \<in> set pre. JSON_parse_at parse (getMessages r) j \<noteq> None) \<and>
      JSON_parse_at parse (getMessages r) i = None"
  then have d: "drainBuffer parse (getMessages r) (buffer r) =
      (i # rest, map (\<lambda>j. the (JSON_parse_at parse (getMessages r) j)) pre)"
    using drainBuffer_stops_at_failure [of pre parse "getMessages r" i rest] by simp
  show "drainBuffer parse (getMessages r) (buffer r) =
      (i # rest, map (\<lambda>j. the (JSON_parse_at parse (getMessages r) j)) pre)"
    by (rule d)
  show "buffer (fst (handleStream parse r)) = i # rest \<or>
      buffer (fst (handleStream parse r)) = i # rest @ [index r]"
    using handleStream_after_drain [of parse r] handleStream_empty_buffer_pushes_le1 [of parse r]
    by (auto simp: d)
  show "snd (handleStream parse r) =
      map (\<lambda>j. the (JSON_parse_at parse (getMessages r) j)) pre @
        snd (handleStream parse (set_buffer [] r))"
    using handleStream_after_drain [of parse r] by (simp add: d)
  show "length (snd (handleStream parse (set_buffer [] r))) \<le> 1"
    by (rule handleStream_empty_buffer_emits_le1)
qed

text \<open>
  The claim's last part fails: after \<open>[0]\<newline>bad\<close> the offset 1 is buffered; on the next
  snapshot the buffered line does not parse, and the new line \<open>[1]\<close> is emitted all the same.
\<close>

theorem handleStream_emits_new_line_after_failed_buffer:
  "buffer (fst (handleStream parse_unless_bad
       (receive ''[0]\<newline>bad'' (newHttpRequestLongPoll 0 ''u'')))) = [1] \<and>
   JSON_parse_at parse_unless_bad (split_lf ''[0]\<newline>bad\<newline>[1]\<newline>'') 1 = None \<and>
   snd (handleStream parse_unless_bad
     (receive ''[0]\<newline>bad\<newline>[1]\<newline>''
       (fst (handleStream parse_unless_bad
          (receive ''[0]\<newline>bad'' (newHttpRequestLongPoll 0 ''u'')))))) = [''[1]'']"
  by (simp add: handleStream_def receive_def newHttpRequestLongPoll_def newXMLHttpRequest_def
      getMessages_def array_get_def JSON_parse_at_def parse_unless_bad_def)

text \<open>
  On \<open>half_drained\<close> the first buffered line is emitted, the loop stops at the second,
  whose offset stays in the buffer with the third behind it, and the new line \<open>[4]\<close> at
  \<open>index\<close> is emitted after the buffered one.
\<close>

theorem handleStream_step_and_failed_buffer_witness:
  "buffer half_drained = [1] @ 2 # [3] \<and>
   JSON_parse_at parse_unless_bad (getMessages half_drained) 1 = Some ''[1]'' \<and>
   JSON_parse_at parse_unless_bad (getMessages half_drained) 2 = None \<and>
   drainBuffer parse_unless_bad (getMessages half_drained) (buffer half_drained) =
     ([2, 3], [''[1]'']) \<and>
   buffer (fst (handleStream parse_unless_bad half_drained)) = [2, 3] \<and>
   snd (handleStream parse_unless_bad half_drained) = [''[1]'', ''[4]''] \<and>
   index (fst (handleStream parse_unless_bad half_drained)) = 5"
proof -
  have a: "buffer half_drained = [1] @ 2 # [3] \<and>
      JSON_parse_at parse_unless_bad (getMessages half_drained) 1 = Some ''[1]'' \<and>
      JSON_parse_at parse_unless_bad (getMessages half_drained) 2 = None"
    by (simp add: half_drained_def getMessages_def array_get_def JSON_parse_at_def
        parse_unless_bad_def)
  then have h: "buffer half_drained = [1] @ 2 # [3] \<and>
      (\<forall>j \<in> set [1]. JSON_parse_at parse_unless_bad (getMessages half_drained) j \<noteq> None) \<and>
      JSON_parse_at parse_unless_bad (getMessages half_drained) 2 = None"
    by simp
  have n: "snd (handleStream parse_unless_bad (set_buffer [] half_drained)) = [''[4]''] \<and>
      index (fst (handleStream parse_unless_bad half_drained)) = 5 \<and>
      buffer (fst (handleStream parse_unless_bad half_drained)) \<noteq> 2 # [3] @ [index half_drained]"
    by (simp add: half_drained_def handleStream_def getMessages_def array_get_def
        JSON_parse_at_def parse_unless_bad_def)
  have b: "drainBuffer parse_unless_bad (getMessages half_drained) (buffer half_drained) =
        (2 # [3],
         map (\<lambda>j. the (JSON_parse_at parse_unless_bad (getMessages half_drained) j)) [1]) \<and>
      (buffer (fst (handleStream parse_unless_bad half_drained)) = 2 # [3] \<or>
       buffer (fst (handleStream parse_unless_bad half_drained)) =
         2 # [3] @ [index half_drained]) \<and>
      snd (handleStream parse_unless_bad half_drained) =
        map (\<lambda>j. the (JSON_parse_at parse_unless_bad (getMessages half_drained) j)) [1] @
          snd (handleStream parse_unless_bad (set_buffer [] half_drained))"
    using handleStream_step_and_failed_buffer [of half_drained parse_unless_bad] h by blast
  show ?thesis using a b n by simp
qed

subsection \<open>A stream delivered in snapshots\<close>

text \<open>
  A complete stream: every line ended by a line feed. Following the words of the claim,
  the messages of a complete stream are its lines, parsed; \<open>split_lf\<close> of a complete stream
  ends in an empty piece, which is no line. \<open>paced c\<close> holds of snapshots whose numbers
  of line feeds start at \<open>c\<close> or \<open>c + 1\<close> and never fall nor grow by more than one.
\<close>

definition stream_of_lines :: "string list \<Rightarrow> string" where
  "stream_of_lines ls = concat (map (\<lambda>l. l @ [LF]) ls)"

definition stream_messages :: "(string \<Rightarrow> 'm option) \<Rightarrow> string \<Rightarrow> 'm list" where
  "stream_messages parse body = List.map_filter parse (butlast (split_lf body))"

fun paced :: "nat \<Rightarrow> string list \<Rightarrow> bool" where
  "paced c [] = True"
| "paced c (s # ss) = (c \<le> count_lf s \<and> count_lf s \<le> Suc c \<and> paced (count_lf s) ss)"

lemma stream_of_lines_Nil [simp]: "stream_of_lines [] = []"
  by (simp add: stream_of_lines_def)

lemma stream_of_lines_Cons [simp]: "stream_of_lines (l # ls) = l @ LF # stream_of_lines ls"
  by (simp add: stream_of_lines_def)

lemma split_lf_no_lf: "LF \<notin> set t \<Longrightarrow> split_lf t = [t]"
  by (induction t) auto

lemma split_lf_line: "LF \<notin> set l \<Longrightarrow> split_lf (l @ LF # rest) = l # split_lf rest"
  by (induction l) auto

lemma count_lf_no_lf: "LF \<notin> set t \<Longrightarrow> count_lf t = 0"
  by (induction t) (auto simp: count_lf_def)

lemma count_lf_line: "LF \<notin> set l \<Longrightarrow> count_lf (l @ LF # rest) = Suc (count_lf rest)"
  by (induction l) (auto simp: count_lf_def)

lemma prefix_no_lf: "prefix t l \<Longrightarrow> LF \<notin> set l \<Longrightarrow> LF \<notin> set t"
  by (auto simp: prefix_def)

text \<open>A prefix of a stream of lines: some complete lines and a piece of the next one.\<close>

lemma split_lf_prefix:
  assumes "prefix s (stream_of_lines ls)" "\<forall>l \<in> set ls. LF \<notin> set l"
  shows "\<exists>t. split_lf s = take (count_lf s) ls @ [t] \<and> count_lf s \<le> length ls \<and>
             (if count_lf s < length ls then prefix t (ls ! count_lf s) else t = [])"
  using assms
proof (induction ls arbitrary: s)
  case Nil
  then show ?case by (simp add: count_lf_def)
next
  case (Cons l ls)
  have nl: "LF \<notin> set l" using Cons.prems(2) by simp
  from Cons.prems(1) have "prefix s (l @ LF # stream_of_lines ls)" by simp
  then consider (short) "prefix s l"
    | (long) s' where "s = l @ LF # s'" "prefix s' (stream_of_lines ls)"
    by (auto simp: prefix_append prefix_Cons)
  then show ?case
  proof cases
    case short
    then have "LF \<notin> set s" using nl by (rule prefix_no_lf)
    then show ?thesis using short by (simp add: split_lf_no_lf count_lf_no_lf)
  next
    case long
    from Cons.IH [OF long(2)] Cons.prems(2)
    obtain t where t: "split_lf s' = take (count_lf s') ls @ [t]" "count_lf s' \<le> length ls"
      "if count_lf s' < length ls then prefix t (ls ! count_lf s') else t = []"
      by auto
    show ?thesis
      using t nl by (auto simp: long(1) split_lf_line count_lf_line)
  qed
qed

text \<open>
  The state of a request between snapshots, \<open>c\<close> the number of line feeds seen so far and
  \<open>n\<close> the number of lines of the final stream: the index stands at line \<open>c\<close> with an
  empty buffer, or behind it, with the buffer empty or holding \<open>c\<close>. The lines before the
  index, but the first and a buffered one, have been emitted. \<open>good_lines\<close> are message
  lines as the protocol sends them: non-empty, without a line feed, parsable, and not
  parsable when cut short.
\<close>

definition emitted_count :: "HttpRequestLongPoll \<Rightarrow> nat" where
  "emitted_count r = index r - 1 - length (buffer r)"

definition stream_state :: "nat \<Rightarrow> nat \<Rightarrow> HttpRequestLongPoll \<Rightarrow> bool" where
  "stream_state n c r =
     ((index r = c \<and> 1 \<le> c \<and> buffer r = []) \<or>
      (index r = Suc c \<and> c < n \<and> (buffer r = [] \<or> (buffer r = [c] \<and> 1 \<le> c))))"

definition good_lines :: "(string \<Rightarrow> 'm option) \<Rightarrow> string list \<Rightarrow> bool" where
  "good_lines parse ls =
     (\<forall>l \<in> set ls. l \<noteq> [] \<and> LF \<notin> set l \<and> parse l \<noteq> None \<and>
                    (\<forall>t. strict_prefix t l \<longrightarrow> parse t = None))"

lemma array_get_snapshot:
  "c \<le> length ls \<Longrightarrow>
   array_get (take c ls @ [t]) k =
     (if k < c then Some (ls ! k) else if k = c then Some t else None)"
  by (auto simp: array_get_def nth_append)

lemma slice_one: "k < length xs \<Longrightarrow> drop k (take (Suc k) xs) = [xs ! k]"
  by (simp add: take_Suc_conv_app_nth)

lemma drop_take_split: "a \<le> b \<Longrightarrow> drop a (take b ys) @ drop b ys = drop a ys"
proof -
  assume ab: "a \<le> b"
  have "drop a ys = drop a (take b ys @ drop b ys)" by simp
  also have "\<dots> = drop a (take b ys) @ drop (a - length (take b ys)) (drop b ys)"
    by (rule drop_append)
  also have "drop (a - length (take b ys)) (drop b ys) = drop b ys"
  proof (cases "b \<le> length ys")
    case True
    then show ?thesis using ab by simp
  next
    case False
    then show ?thesis by simp
  qed
  finally show ?thesis by simp
qed

lemma slice_append:
  assumes "a \<le> b" "b \<le> c"
  shows "drop a (take b xs) @ drop b (take c xs) = drop a (take c xs)"
proof -
  have "take b xs = take b (take c xs)" using assms(2) by (simp add: min_def)
  then show ?thesis using drop_take_split [OF assms(1), of "take c xs"] by simp
qed

lemma good_line_parses:
  assumes "good_lines parse ls" "k < length ls"
  shows "ls ! k \<noteq> []" and "\<exists>m. parse (ls ! k) = Some m"
    and "prefix t (ls ! k) \<Longrightarrow> t \<noteq> ls ! k \<Longrightarrow> parse t = None"
  using assms by (auto simp: good_lines_def strict_prefix_def dest!: nth_mem)

lemma set_buffer_same [simp]: "set_buffer (buffer r) r = r"
  by (cases r) simp

lemma set_buffer_Nil [simp]: "buffer r = [] \<Longrightarrow> set_buffer [] r = r"
  by (cases r) simp

lemma getMessages_set_index [simp]: "getMessages (set_index i r) = getMessages r"
  by (cases r) (simp add: getMessages_def)

lemma handleStream_buffered_parses:
  assumes "buffer r = [c]" "JSON_parse_at parse (getMessages r) c = Some m"
  shows "handleStream parse r =
     (fst (handleStream parse (set_buffer [] r)), m # snd (handleStream parse (set_buffer [] r)))"
  using assms by (auto simp: handleStream_def Let_def split: option.splits)

lemma handleStream_stream_step:
  assumes msgs: "getMessages r = take c' (pad # ls) @ [t]"
    and len: "c' \<le> Suc (length ls)"
    and tail: "if c' < Suc (length ls) then prefix t ((pad # ls) ! c') else t = []"
    and good: "good_lines parse ls"
    and st: "stream_state (Suc (length ls)) c r"
    and pace: "c \<le> c'" "c' \<le> Suc c"
  shows "stream_state (Suc (length ls)) c' (fst (handleStream parse r)) \<and>
         emitted_count r \<le> emitted_count (fst (handleStream parse r)) \<and>
         snd (handleStream parse r) =
           map (the \<circ> parse) (drop (emitted_count r) (take (emitted_count (fst (handleStream parse r))) ls))"
proof -
  let ?all = "pad # ls"
  let ?n = "Suc (length ls)"
  have ag: "array_get (getMessages r) k =
      (if k < c' then Some (?all ! k) else if k = c' then Some t else None)" for k
    unfolding msgs using len by (intro array_get_snapshot) simp
  have lm: "length (getMessages r) = Suc c'"
    unfolding msgs using len by simp
  have tail_full: "t \<noteq> [] \<Longrightarrow> c' < ?n"
    using tail by (auto split: if_splits)
  have line: "1 \<le> k \<Longrightarrow> k < ?n \<Longrightarrow> ?all ! k = ls ! (k - 1) \<and> ls ! (k - 1) \<noteq> [] \<and>
      (\<exists>m. parse (ls ! (k - 1)) = Some m)" for k
    using good_line_parses(1,2) [OF good, of "k - 1"] by (cases k) auto
  \<comment> \<open>what the part of the handler after the buffer loop does, from an empty buffer\<close>
  have fresh: "stream_state ?n c' (fst (handleStream parse q)) \<and>
      emitted_count q \<le> emitted_count (fst (handleStream parse q)) \<and>
      snd (handleStream parse q) =
        map (the \<circ> parse) (drop (emitted_count q) (take (emitted_count (fst (handleStream parse q))) ls))"
    if q: "getMessages q = getMessages r" "buffer q = []" "1 \<le> index q"
      and iq: "(index q = c' \<or> Suc (index q) = c' \<or> (index q = Suc c' \<and> c' < ?n))" for q
  proof -
    consider (tail_empty) "index q = c'" "t = []"
      | (tail_part) "index q = c'" "t \<noteq> []"
      | (behind) "Suc (index q) = c'"
      | (ahead) "index q = Suc c'" "c' < ?n"
      using iq by blast
    then show ?thesis
    proof cases
      case tail_empty
      then have "handleStream parse q = (q, [])"
        using q by (simp add: handleStream_def ag)
      then show ?thesis using tail_empty q by (simp add: stream_state_def)
    next
      case tail_part
      then have "handleStream parse q = (set_buffer [c'] (set_index (Suc c') q), [])"
        using q by (simp add: handleStream_def ag lm)
      then show ?thesis
        using tail_part q tail_full by (simp add: stream_state_def emitted_count_def)
    next
      case behind
      then have k: "index q < ?n" "index q < c'" using len by simp_all
      obtain m where m: "?all ! index q = ls ! (index q - 1)" "ls ! (index q - 1) \<noteq> []"
        "parse (ls ! (index q - 1)) = Some m"
        using line [OF q(3) k(1)] by blast
      have "handleStream parse q = (set_index c' q, [m])"
        using q k m behind by (simp add: handleStream_def ag lm)
      moreover have "drop (index q - 1) (take (index q) ls) = [ls ! (index q - 1)]"
        using slice_one [of "index q - 1" ls] q(3) k(1) by simp
      ultimately show ?thesis
        using q m by (simp add: stream_state_def emitted_count_def behind [symmetric])
    next
      case ahead
      then have "handleStream parse q = (q, [])"
        using q by (simp add: handleStream_def ag)
      then show ?thesis using ahead q by (simp add: stream_state_def)
    qed
  qed
  from st consider (A) "index r = c" "1 \<le> c" "buffer r = []"
    | (B) "index r = Suc c" "c < ?n" "buffer r = []"
    | (C) "index r = Suc c" "c < ?n" "buffer r = [c]" "1 \<le> c"
    by (auto simp: stream_state_def)
  then show ?thesis
  proof cases
    case A
    show ?thesis using A pace by (intro fresh) auto
  next
    case B
    show ?thesis using B pace by (intro fresh) auto
  next
    case C
    let ?q = "set_buffer [] r"
    have pl: "\<exists>m. parse (ls ! (c - 1)) = Some m" and al: "?all ! c = ls ! (c - 1)"
      using line [OF C(4) C(2)] by auto
    have cl: "c - 1 < length ls" using C(2,4) by simp
    have ecr: "emitted_count r = c - 1" using C by (simp add: emitted_count_def)
    have ecq: "emitted_count ?q = c" using C by (simp add: emitted_count_def)
    have emitted_first: ?thesis
      if m: "JSON_parse_at parse (getMessages r) c = Some m" "parse (ls ! (c - 1)) = Some m" for m
    proof -
      have h: "handleStream parse r =
          (fst (handleStream parse ?q), m # snd (handleStream parse ?q))"
        using C(3) m(1) by (rule handleStream_buffered_parses)
      have f: "stream_state ?n c' (fst (handleStream parse ?q)) \<and>
          emitted_count ?q \<le> emitted_count (fst (handleStream parse ?q)) \<and>
          snd (handleStream parse ?q) =
            map (the \<circ> parse)
              (drop (emitted_count ?q) (take (emitted_count (fst (handleStream parse ?q))) ls))"
        using C pace by (intro fresh) auto
      let ?d = "emitted_count (fst (handleStream parse ?q))"
      have d: "c \<le> ?d" using f ecq by simp
      have "drop (c - 1) (take ?d ls) = drop (c - 1) (take c ls) @ drop c (take ?d ls)"
        using slice_append [of "c - 1" c ?d ls] d by simp
      also have "drop (c - 1) (take c ls) = [ls ! (c - 1)]"
        using slice_one [OF cl] C(4) by simp
      finally have "map (the \<circ> parse) (drop (c - 1) (take ?d ls)) =
          m # map (the \<circ> parse) (drop c (take ?d ls))"
        using m(2) by simp
      then show ?thesis using f d by (simp add: h ecr ecq)
    qed
    show ?thesis
    proof (cases "c < c'")
      case True
      obtain m where m: "parse (ls ! (c - 1)) = Some m" using pl by blast
      have "JSON_parse_at parse (getMessages r) c = Some m"
        using True m al by (simp add: JSON_parse_at_def ag)
      then show ?thesis using m by (rule emitted_first)
    next
      case False
      then have cc: "c' = c" using pace by simp
      have pt: "prefix t (ls ! (c - 1))" using tail C(2) al by (simp add: cc)
      show ?thesis
      proof (cases "t = ls ! (c - 1)")
        case True
        obtain m where m: "parse (ls ! (c - 1)) = Some m" using pl by blast
        have "JSON_parse_at parse (getMessages r) c = Some m"
          using True m by (simp add: JSON_parse_at_def ag cc)
        then show ?thesis using m by (rule emitted_first)
      next
        case False
        have "parse t = None"
          using good_line_parses(3) [OF good cl pt False] .
        moreover have "set_buffer [c] r = r"
          using set_buffer_same [of r] C(3) by simp
        ultimately have "handleStream parse r = (r, [])"
          using C by (simp add: handleStream_def JSON_parse_at_def ag cc)
        then show ?thesis using C by (simp add: stream_state_def cc)
      qed
    qed
  qed
qed

lemma stream_state_receive [simp]: "stream_state n c (receive body r) = stream_state n c r"
  by (simp add: stream_state_def)

lemma emitted_count_receive [simp]: "emitted_count (receive body r) = emitted_count r"
  by (simp add: emitted_count_def)

lemma feed_stream:
  assumes pad: "LF \<notin> set pad" and good: "good_lines parse ls"
  shows "stream_state (Suc (length ls)) c r \<Longrightarrow> paced c snaps \<Longrightarrow>
     \<forall>s \<in> set snaps. prefix s (stream_of_lines (pad # ls)) \<Longrightarrow>
     stream_state (Suc (length ls)) (if snaps = [] then c else count_lf (last snaps))
       (fst (feed parse r snaps)) \<and>
     emitted_count r \<le> emitted_count (fst (feed parse r snaps)) \<and>
     snd (feed parse r snaps) =
       map (the \<circ> parse) (drop (emitted_count r) (take (emitted_count (fst (feed parse r snaps))) ls))"
proof (induction snaps arbitrary: c r)
  case Nil
  then show ?case by simp
next
  case (Cons s ss)
  let ?n = "Suc (length ls)"
  let ?c = "count_lf s"
  have nolf: "\<forall>l \<in> set (pad # ls). LF \<notin> set l"
    using pad good by (auto simp: good_lines_def)
  have ps: "prefix s (stream_of_lines (pad # ls))" using Cons.prems(3) by simp
  from split_lf_prefix [OF ps nolf]
  obtain t where t: "split_lf s = take ?c (pad # ls) @ [t]" "?c \<le> ?n"
    "if ?c < ?n then prefix t ((pad # ls) ! ?c) else t = []"
    by auto
  let ?r0 = "receive s r"
  obtain r1 es where h: "handleStream parse ?r0 = (r1, es)" by (metis surj_pair)
  have step: "stream_state ?n ?c (fst (handleStream parse ?r0)) \<and>
      emitted_count ?r0 \<le> emitted_count (fst (handleStream parse ?r0)) \<and>
      snd (handleStream parse ?r0) =
        map (the \<circ> parse)
          (drop (emitted_count ?r0) (take (emitted_count (fst (handleStream parse ?r0))) ls))"
  proof (rule handleStream_stream_step [where c = c and pad = pad and t = t])
    show "getMessages ?r0 = take ?c (pad # ls) @ [t]" using t(1) by simp
    show "?c \<le> ?n" by (rule t(2))
    show "if ?c < ?n then prefix t ((pad # ls) ! ?c) else t = []" by (rule t(3))
    show "good_lines parse ls" by (rule good)
    show "stream_state ?n c ?r0" using Cons.prems(1) by simp
    show "c \<le> ?c" "?c \<le> Suc c" using Cons.prems(2) by simp_all
  qed
  then have s1: "stream_state ?n ?c r1" and e1: "emitted_count r \<le> emitted_count r1"
    and es: "es = map (the \<circ> parse) (drop (emitted_count r) (take (emitted_count r1) ls))"
    by (simp_all add: h)
  obtain r2 es' where f: "feed parse r1 ss = (r2, es')" by (metis surj_pair)
  have "stream_state ?n (if ss = [] then ?c else count_lf (last ss)) (fst (feed parse r1 ss)) \<and>
      emitted_count r1 \<le> emitted_count (fst (feed parse r1 ss)) \<and>
      snd (feed parse r1 ss) =
        map (the \<circ> parse) (drop (emitted_count r1) (take (emitted_count (fst (feed parse r1 ss))) ls))"
    using s1 Cons.prems(2,3) by (intro Cons.IH) simp_all
  then have s2: "stream_state ?n (if ss = [] then ?c else count_lf (last ss)) r2"
    and e2: "emitted_count r1 \<le> emitted_count r2"
    and es': "es' = map (the \<circ> parse) (drop (emitted_count r1) (take (emitted_count r2) ls))"
    by (simp_all add: f)
  have res: "feed parse r (s # ss) = (r2, es @ es')" by (simp add: h f)
  have cat: "es @ es' = map (the \<circ> parse) (drop (emitted_count r) (take (emitted_count r2) ls))"
    unfolding es es' map_append [symmetric] using slice_append [OF e1 e2, of ls] by simp
  have lc: "(if s # ss = [] then c else count_lf (last (s # ss))) =
      (if ss = [] then ?c else count_lf (last ss))"
    by simp
  show ?case unfolding res lc fst_conv snd_conv using s2 e1 e2 cat by simp
qed

lemma split_lf_stream:
  "\<forall>l \<in> set ls. LF \<notin> set l \<Longrightarrow> split_lf (stream_of_lines ls) = ls @ [[]]"
  by (induction ls) (simp_all add: split_lf_line)

lemma count_lf_stream:
  "\<forall>l \<in> set ls. LF \<notin> set l \<Longrightarrow> count_lf (stream_of_lines ls) = length ls"
  using length_split_lf [of "stream_of_lines ls"] by (simp add: split_lf_stream)

lemma map_filter_good: "good_lines parse ls \<Longrightarrow> List.map_filter parse ls = map (the \<circ> parse) ls"
  by (induction ls) (auto simp: List.map_filter_simps good_lines_def)

lemma stream_messages_good:
  "good_lines parse ls \<Longrightarrow> stream_messages parse (stream_of_lines ls) = map (the \<circ> parse) ls"
  by (simp add: stream_messages_def split_lf_stream good_lines_def map_filter_good)

text \<open>
  Claim C1, as the code has it. Let the final stream consist of a first line \<open>pad\<close> and
  the message lines \<open>ls\<close>, each line ended by a line feed; let every message line be
  non-empty and parse, and let no proper prefix of a message line parse. Let the snapshots
  be prefixes of the final stream, the last one the final stream itself, the first one with
  at most two line feeds, and each later one with at least as many line feeds as the one
  before and at most one more. Then the handler, run once on every snapshot from a new
  request, emits exactly the parsed message lines, in order, each once: the messages of the
  final stream without its first line, which at offset 0 is never read. At the end the
  buffer is empty and the index stands behind the last line.
\<close>

theorem feed_emits_paced_stream:
  assumes "LF \<notin> set pad" and "good_lines parse ls"
    and "snaps \<noteq> []" and "last snaps = stream_of_lines (pad # ls)"
    and "\<forall>s \<in> set snaps. prefix s (stream_of_lines (pad # ls))"
    and "paced 0 snaps \<or> paced 1 snaps"
  shows "snd (feed parse (newHttpRequestLongPoll si url) snaps) =
           stream_messages parse (stream_of_lines ls) \<and>
         index (fst (feed parse (newHttpRequestLongPoll si url) snaps)) = Suc (length ls) \<and>
         buffer (fst (feed parse (newHttpRequestLongPoll si url) snaps)) = []"
proof -
  let ?r = "newHttpRequestLongPoll si url"
  let ?n = "Suc (length ls)"
  have i: "index ?r = 1" "buffer ?r = []" by (simp_all add: newHttpRequestLongPoll_def)
  have init: "stream_state ?n 0 ?r" "stream_state ?n 1 ?r"
    using i by (simp_all add: stream_state_def)
  have e0: "emitted_count ?r = 0" using i by (simp add: emitted_count_def)
  from assms(6) obtain c where c: "paced c snaps" "stream_state ?n c ?r"
    using init by blast
  have nolf: "\<forall>l \<in> set (pad # ls). LF \<notin> set l"
    using assms(1,2) by (auto simp: good_lines_def)
  have lastc: "count_lf (last snaps) = ?n"
    using count_lf_stream [OF nolf] assms(4) by simp
  have fs: "stream_state ?n (if snaps = [] then c else count_lf (last snaps)) (fst (feed parse ?r snaps)) \<and>
      emitted_count ?r \<le> emitted_count (fst (feed parse ?r snaps)) \<and>
      snd (feed parse ?r snaps) =
        map (the \<circ> parse) (drop (emitted_count ?r) (take (emitted_count (fst (feed parse ?r snaps))) ls))"
    using c(2) c(1) assms(5) by (rule feed_stream [OF assms(1,2)])
  then have fin: "stream_state ?n ?n (fst (feed parse ?r snaps))"
    using assms(3) lastc by simp
  then have ib: "index (fst (feed parse ?r snaps)) = ?n" "buffer (fst (feed parse ?r snaps)) = []"
    by (auto simp: stream_state_def)
  then have "emitted_count (fst (feed parse ?r snaps)) = length ls"
    by (simp add: emitted_count_def)
  then have "snd (feed parse ?r snaps) = map (the \<circ> parse) ls"
    using fs e0 by simp
  then show ?thesis using ib stream_messages_good [OF assms(2)] by simp
qed

text \<open>A stand-in for a parser of one JSON array per line: a text parses when it ends in a
  closing bracket.\<close>

definition parse_array :: "string \<Rightarrow> string option" where
  "parse_array s = (if s \<noteq> [] \<and> last s = CHR '']'' then Some s else None)"

lemma all_strict_prefixes:
  "(\<forall>t. strict_prefix t l \<longrightarrow> P t) \<longleftrightarrow> (\<forall>t \<in> set (prefixes l). t \<noteq> l \<longrightarrow> P t)"
  by (auto simp: in_set_prefixes strict_prefix_def)

text \<open>
  The claim as stated fails. The snapshots \<open>[0]\<newline>\<close> and \<open>[0]\<newline>[1]\<newline>[2]\<newline>\<close> are growing
  prefixes of the final stream \<open>[0]\<newline>[1]\<newline>[2]\<newline>\<close>, whose messages are \<open>[0]\<close>, \<open>[1]\<close>, \<open>[2]\<close>;
  the handler emits \<open>[1]\<close> only: the line at offset 0 is never read, and one call reads at
  most one new line.
\<close>

theorem feed_misses_lines:
  "prefix ''[0]\<newline>'' ''[0]\<newline>[1]\<newline>[2]\<newline>'' \<and>
   snd (feed Some (newHttpRequestLongPoll 0 ''u'') [''[0]\<newline>'', ''[0]\<newline>[1]\<newline>[2]\<newline>'']) = [''[1]''] \<and>
   stream_messages Some ''[0]\<newline>[1]\<newline>[2]\<newline>'' = [''[0]'', ''[1]'', ''[2]'']"
  by (simp add: handleStream_def receive_def newHttpRequestLongPoll_def newXMLHttpRequest_def
      getMessages_def array_get_def stream_messages_def List.map_filter_simps)

theorem feed_emits_paced_stream_witness:
  "LF \<notin> set ''[0]'' \<and> good_lines parse_array [''[1]'', ''[2]''] \<and>
   last [''[0]\<newline>[1'', ''[0]\<newline>[1]\<newline>[2]'', ''[0]\<newline>[1]\<newline>[2]\<newline>''] = stream_of_lines [''[0]'', ''[1]'', ''[2]''] \<and>
   prefix ''[0]\<newline>[1'' (stream_of_lines [''[0]'', ''[1]'', ''[2]'']) \<and>
   prefix ''[0]\<newline>[1]\<newline>[2]'' (stream_of_lines [''[0]'', ''[1]'', ''[2]'']) \<and>
   prefix ''[0]\<newline>[1]\<newline>[2]\<newline>'' (stream_of_lines [''[0]'', ''[1]'', ''[2]'']) \<and>
   paced 1 [''[0]\<newline>[1'', ''[0]\<newline>[1]\<newline>[2]'', ''[0]\<newline>[1]\<newline>[2]\<newline>''] \<and>
   snd (feed parse_array (newHttpRequestLongPoll 0 ''u'')
          [''[0]\<newline>[1'', ''[0]\<newline>[1]\<newline>[2]'', ''[0]\<newline>[1]\<newline>[2]\<newline>'']) = [''[1]'', ''[2]'']"
proof -
  let ?snaps = "[''[0]\<newline>[1'', ''[0]\<newline>[1]\<newline>[2]'', ''[0]\<newline>[1]\<newline>[2]\<newline>'']"
  have a: "LF \<notin> set ''[0]''" by simp
  have b: "good_lines parse_array [''[1]'', ''[2]'']"
    by (simp add: good_lines_def parse_array_def all_strict_prefixes)
  have c: "?snaps \<noteq> []" by simp
  have d: "last ?snaps = stream_of_lines (''[0]'' # [''[1]'', ''[2]''])" by simp
  have e: "\<forall>s \<in> set ?snaps. prefix s (stream_of_lines (''[0]'' # [''[1]'', ''[2]'']))" by simp
  have f: "paced 1 ?snaps" by (simp add: count_lf_def)
  have g: "stream_messages parse_array (stream_of_lines [''[1]'', ''[2]'']) = [''[1]'', ''[2]'']"
    by (simp add: stream_messages_def List.map_filter_simps parse_array_def)
  have "snd (feed parse_array (newHttpRequestLongPoll 0 ''u'') ?snaps) =
      stream_messages parse_array (stream_of_lines [''[1]'', ''[2]''])"
    using feed_emits_paced_stream [OF a b c d e, of 0 "''u''"] f by blast
  then show ?thesis using a b d e f g by simp
qed

section \<open>The poll transport and the hand-off between poll requests\<close>

text \<open>
  A JavaScript value that is a string or \<open>undefined\<close>: \<open>None\<close> is \<open>undefined\<close>. It is
  falsy when it is \<open>undefined\<close> or the empty string, and a template or a concatenation
  prints \<open>undefined\<close> as that word.
\<close>

type_synonym js_string = "string option"

definition truthy :: "js_string \<Rightarrow> bool" where
  "truthy s = (case s of None \<Rightarrow> False | Some x \<Rightarrow> x \<noteq> [])"

definition js_str :: "js_string \<Rightarrow> string" where
  "js_str s = (case s of None \<Rightarrow> ''undefined'' | Some x \<Rightarrow> x)"

text \<open>\<open>String.prototype.toLowerCase\<close>, on the letters A to Z.\<close>

definition toLowerCase :: "string \<Rightarrow> string" where
  "toLowerCase s =
     map (\<lambda>c. if 65 \<le> (of_char c :: nat) \<and> (of_char c :: nat) \<le> 90
              then char_of ((of_char c :: nat) + 32) else c) s"

text \<open>
  The data handed to \<open>send\<close>: its field \<open>type\<close>, which the code reads, and the rest of
  it. A parsed server message is a JSON value.
\<close>

record data =
  data_type :: js_string
  data_payload :: string

datatype json =
  JNull
| JBool bool
| JNumber int
| JString string
| JArray "json list"
| JObject "(string \<times> json) list"

text \<open>
  The events of \<open>SocketEventType\<close> that the code names (\<open>Message\<close>, \<open>Disconnected\<close>,
  \<open>Error\<close>); any other event name is \<open>OtherEvent\<close>.
\<close>

datatype event = Message json | Disconnected | Error string | OtherEvent string

text \<open>
  What the transport does to the outside: \<open>PollSend url i\<close> opens and sends the poll
  request of chain position \<open>i\<close> (a POST to \<open>url/id?i=i\<close>), \<open>PollAbort i\<close> aborts the XHR
  of that request, \<open>Post url d\<close> posts the serialised data \<open>d\<close> to \<open>url\<close>, and \<open>Emit\<close> is
  a call of the transport's \<open>emit\<close>.
\<close>

datatype effect =
  PollSend string nat
| PollAbort nat
| Post string data
| Emit event

subsection \<open>One poll request\<close>

definition isSuccess :: "HttpRequestLongPoll \<Rightarrow> bool" where
  "isSuccess this =
     (readyState (xmlHttpRequest this) > 2 \<and>
      status (xmlHttpRequest this) = 200 \<and>
      responseText (xmlHttpRequest this) \<noteq> [])"

definition needsClearPreviousRequest :: "HttpRequestLongPoll \<Rightarrow> bool" where
  "needsClearPreviousRequest this =
     ((readyState (xmlHttpRequest this) = 2 \<and> previousRequest this \<noteq> None) \<or>
      (case previousRequest this of
         None \<Rightarrow> False
       | Some p \<Rightarrow> readyState (xmlHttpRequest p) < 2))"

definition clearPreviousRequest :: "HttpRequestLongPoll \<Rightarrow> HttpRequestLongPoll \<times> effect list" where
  "clearPreviousRequest this =
     (case previousRequest this of
        None \<Rightarrow> (this, [])
      | Some p \<Rightarrow> (set_previousRequest None this, [PollAbort (streamIndex p)]))"

text \<open>
  The handler that the constructor installs as \<open>onreadystatechange\<close>, with the success
  callback that \<open>_startXhrStream\<close> sets (\<open>_handleStream\<close> on this request). The browser
  has updated the XHR fields before it calls the handler.
\<close>

definition onreadystatechange ::
  "(string \<Rightarrow> json option) \<Rightarrow> HttpRequestLongPoll \<Rightarrow> HttpRequestLongPoll \<times> effect list" where
  "onreadystatechange parse this =
     (if needsClearPreviousRequest this then clearPreviousRequest this
      else if isSuccess this then
        (case handleStream parse this of
           (r, ms) \<Rightarrow> (r, map (\<lambda>m. Emit (Message m)) ms))
      else (this, []))"

text \<open>The requests reached from a request through \<open>previousRequest\<close>, nearest first.\<close>

fun predecessors :: "HttpRequestLongPoll \<Rightarrow> HttpRequestLongPoll list" where
  "predecessors (HttpRequestLongPoll i b None s u x) = []"
| "predecessors (HttpRequestLongPoll i b (Some p) s u x) = p # predecessors p"

text \<open>
  \<open>HttpRequestLongPoll.send\<close>: open and send the XHR, which leaves it in the opened state
  (\<open>readyState = 1\<close>), and arm the open timeout of 5000 ms.
\<close>

definition HttpRequestLongPoll_send ::
  "HttpRequestLongPoll \<Rightarrow> timers \<Rightarrow> HttpRequestLongPoll \<times> timers \<times> effect list" where
  "HttpRequestLongPoll_send this env =
     (case setTimeout (PollOpenTimeout (streamIndex this)) 5000 env of
        (h, env') \<Rightarrow>
          (set_xmlHttpRequest ((xmlHttpRequest this)\<lparr>readyState := 1\<rparr>) this, env',
           [PollSend (httpUrl this) (streamIndex this)]))"

subsection \<open>The transport\<close>

text \<open>
  The class \<open>HttpRequest\<close>. Its private fields keep their names without the underscore,
  but \<open>_id\<close> is \<open>sessionId\<close> and \<open>_httpUrl\<close> is \<open>streamUrl\<close> (the poll request has a
  field \<open>_httpUrl\<close> of its own). The port is given as its decimal text. A new transport is
  disconnected and has no session id.
\<close>

record HttpRequest =
  disconnected :: bool
  sessionId :: js_string
  streamUrl :: js_string
  timeout :: "nat option"
  messagesQueue :: "data list"
  httpRequest :: "HttpRequestLongPoll option"
  baseUrl :: string

definition newHttpRequest :: "bool \<Rightarrow> string \<Rightarrow> string \<Rightarrow> string \<Rightarrow> string \<Rightarrow> HttpRequest" where
  "newHttpRequest secure host port path key =
     \<lparr>disconnected = True, sessionId = None, streamUrl = None, timeout = None,
      messagesQueue = [], httpRequest = None,
      baseUrl = (if secure then ''https://'' else ''http://'') @ host @ '':'' @ port @ path @ key\<rparr>"

definition setHTTPTimeout :: "HttpRequest \<Rightarrow> timers \<Rightarrow> HttpRequest \<times> timers" where
  "setHTTPTimeout this env =
     (case setTimeout HttpTimeout 25000 env of
        (h, env') \<Rightarrow> (this\<lparr>timeout := Some h\<rparr>, env'))"

text \<open>
  \<open>_startXhrStream\<close>, on the path where the browser's \<open>open\<close> and \<open>send\<close> do not throw
  (an exception there is caught and logged).
\<close>

definition startXhrStream ::
  "nat \<Rightarrow> HttpRequest \<Rightarrow> timers \<Rightarrow> HttpRequest \<times> timers \<times> effect list" where
  "startXhrStream si this env =
     (case HttpRequestLongPoll_send (newHttpRequestLongPoll si (js_str (streamUrl this))) env of
        (newRequest, env1, es) \<Rightarrow>
          (case setHTTPTimeout (this\<lparr>httpRequest := Some newRequest\<rparr>) env1 of
             (this', env2) \<Rightarrow> (this', env2, es)))"

definition HttpRequest_start ::
  "js_string \<Rightarrow> js_string \<Rightarrow> HttpRequest \<Rightarrow> timers \<Rightarrow> HttpRequest \<times> timers \<times> effect list" where
  "HttpRequest_start i token this env =
     (if httpRequest this \<noteq> None \<or> \<not> disconnected this then (this, env, [])
      else
        (case startXhrStream 0
                (this\<lparr>sessionId := i,
                      streamUrl := Some (baseUrl this @ ''/'' @ js_str i @ ''/'' @ js_str token)\<rparr>) env of
           (this', env', es) \<Rightarrow> (this'\<lparr>disconnected := False\<rparr>, env', es)))"

definition HttpRequest_send :: "data \<Rightarrow> HttpRequest \<Rightarrow> HttpRequest \<times> effect list" where
  "HttpRequest_send d this =
     (if disconnected this then (this, [])
      else if \<not> truthy (sessionId this)
      then (this\<lparr>messagesQueue := messagesQueue this @ [d]\<rparr>, [])
      else if \<not> truthy (data_type d) then (this, [Emit (Error ''Invalid message'')])
      else (this, [Post (js_str (streamUrl this) @ ''/'' @ toLowerCase (js_str (data_type d))) d]))"

text \<open>\<open>close\<close> with \<open>_cleanup\<close>: clear the idle timeout and abort the current poll request.\<close>

definition HttpRequest_close :: "HttpRequest \<Rightarrow> timers \<Rightarrow> HttpRequest \<times> timers \<times> effect list" where
  "HttpRequest_close this env =
     (if disconnected this then (this, env, [])
      else
        (this\<lparr>disconnected := True\<rparr>,
         clearTimeout_opt (timeout this) env,
         (case httpRequest this of None \<Rightarrow> [] | Some r \<Rightarrow> [PollAbort (streamIndex r)])))"

text \<open>
  The callback of the idle timeout (\<open>_setHTTPTimeout\<close>): start the request of the next
  chain position and make the request that was current its \<open>previousRequest\<close>. The timeout
  is armed by \<open>_startXhrStream\<close> only, so a current request exists when it fires; without
  one the JavaScript would throw, and the model does nothing.
\<close>

definition httpTimeoutCallback :: "HttpRequest \<Rightarrow> timers \<Rightarrow> HttpRequest \<times> timers \<times> effect list" where
  "httpTimeoutCallback this env =
     (case httpRequest this of
        None \<Rightarrow> (this, env, [])
      | Some oldHttp \<Rightarrow>
          (case startXhrStream (streamIndex oldHttp + 1) this env of
             (this', env', es) \<Rightarrow>
               (this'\<lparr>httpRequest := map_option (set_previousRequest (Some oldHttp)) (httpRequest this')\<rparr>,
                env', es)))"

text \<open>
  The error callback that \<open>_startXhrStream\<close> sets on a request, and the callback of the
  request's open timeout, which aborts the request and reports the error when the request
  has not reached the header-received state.
\<close>

definition onError :: "HttpRequest \<Rightarrow> timers \<Rightarrow> timers \<times> effect list" where
  "onError this env = (clearTimeout_opt (timeout this) env, [Emit Disconnected])"

definition openTimeoutCallback ::
  "HttpRequestLongPoll \<Rightarrow> HttpRequest \<Rightarrow> timers \<Rightarrow> timers \<times> effect list" where
  "openTimeoutCallback request this env =
     (if readyState (xmlHttpRequest request) < 2
      then (case onError this env of
              (env', es) \<Rightarrow> (env', PollAbort (streamIndex request) # es))
      else (env, []))"

text \<open>The public interface of the transport, as calls made one after the other.\<close>

datatype http_call = HttpStart js_string js_string | HttpSend data | HttpClose

fun http_step ::
  "http_call \<Rightarrow> HttpRequest \<times> timers \<Rightarrow> (HttpRequest \<times> timers) \<times> effect list" where
  "http_step (HttpStart i token) (this, env) =
     (case HttpRequest_start i token this env of (this', env', es) \<Rightarrow> ((this', env'), es))"
| "http_step (HttpSend d) (this, env) =
     (case HttpRequest_send d this of (this', es) \<Rightarrow> ((this', env), es))"
| "http_step HttpClose (this, env) =
     (case HttpRequest_close this env of (this', env', es) \<Rightarrow> ((this', env'), es))"

fun http_run ::
  "http_call list \<Rightarrow> HttpRequest \<times> timers \<Rightarrow> (HttpRequest \<times> timers) \<times> effect list" where
  "http_run [] s = (s, [])"
| "http_run (c # cs) s =
     (case http_step c s of
        (s1, es) \<Rightarrow> (case http_run cs s1 of (s2, es') \<Rightarrow> (s2, es @ es')))"

subsection \<open>The hand-off rule\<close>

lemma previousRequest_set_buffer [simp]: "previousRequest (set_buffer b r) = previousRequest r"
  by (cases r) simp
lemma previousRequest_set_index [simp]: "previousRequest (set_index i r) = previousRequest r"
  by (cases r) simp
lemma previousRequest_set_previousRequest [simp]: "previousRequest (set_previousRequest p r) = p"
  by (cases r) simp

lemma previousRequest_handleStream [simp]:
  "previousRequest (fst (handleStream parse r)) = previousRequest r"
  by (auto simp: handleStream_def Let_def split: prod.splits option.splits)

lemma predecessors_eq:
  "predecessors r = (case previousRequest r of None \<Rightarrow> [] | Some p \<Rightarrow> p # predecessors p)"
  by (cases r rule: predecessors.cases) simp_all

lemma predecessors_cong: "previousRequest r = previousRequest r' \<Longrightarrow> predecessors r = predecessors r'"
  by (simp add: predecessors_eq [of r] predecessors_eq [of r'])

lemma onreadystatechange_handoff:
  assumes "previousRequest this = Some p"
    and "readyState (xmlHttpRequest this) = 2 \<or> readyState (xmlHttpRequest p) < 2"
  shows "onreadystatechange parse this = (set_previousRequest None this, [PollAbort (streamIndex p)])"
  using assms
  by (auto simp: onreadystatechange_def needsClearPreviousRequest_def clearPreviousRequest_def)

lemma onreadystatechange_predecessors:
  "length (predecessors (fst (onreadystatechange parse this))) \<le> length (predecessors this)"
proof (cases "needsClearPreviousRequest this")
  case True
  then show ?thesis
    by (auto simp: onreadystatechange_def clearPreviousRequest_def predecessors_eq [of "set_previousRequest None this"]
        split: option.splits)
next
  case False
  have "predecessors (fst (handleStream parse this)) = predecessors this"
    by (rule predecessors_cong) simp
  with False show ?thesis
    by (auto simp: onreadystatechange_def split: prod.splits)
qed

lemma httpTimeoutCallback_chain:
  assumes "httpRequest t = Some old"
  shows "\<exists>new. httpRequest (fst (httpTimeoutCallback t env)) = Some new \<and>
     streamIndex new = Suc (streamIndex old) \<and>
     predecessors new = old # predecessors old"
  using assms
  by (simp add: httpTimeoutCallback_def startXhrStream_def HttpRequestLongPoll_send_def
      setHTTPTimeout_def setTimeout_def newHttpRequestLongPoll_def split: prod.splits)

text \<open>
  What happens to the chain of poll requests once the transport runs. The events are: a
  call of the public interface; the browser moves the XHR of the request at a chain
  position to new fields and calls its \<open>onreadystatechange\<close> handler; a network error on
  a request; a pending timer fires and its callback runs. Events come in any order and
  any number, within two rules of the browser.

  The first rule is the order of timers. A timer does not fire while a timer that was set
  before it, with a delay that is not longer, is still pending. \<open>fires h env\<close> is the
  callback of the pending timer \<open>h\<close> when every pending timer set before it has a longer
  delay, and \<open>None\<close> otherwise. So the open timeout of a request (5000 ms), armed by
  \<open>send\<close>, fires before the idle timeout (25000 ms) that \<open>_setHTTPTimeout\<close> arms right
  after it. A timer that has fired is no longer pending.
\<close>

definition fires :: "nat \<Rightarrow> timers \<Rightarrow> callback option" where
  "fires h env =
     (case dropWhile (\<lambda>e. fst e \<noteq> h) (pending env) of
        [] \<Rightarrow> None
      | e # later \<Rightarrow>
          if list_all (\<lambda>e'. snd (snd e) < snd (snd e')) (takeWhile (\<lambda>e. fst e \<noteq> h) (pending env))
          then Some (fst (snd e)) else None)"

text \<open>
  \<open>find_request\<close> looks up the request of a chain position among a request and its
  predecessors; \<open>deliver\<close> runs a handler on that request, in place, and leaves the chain
  as it is when no request has the position.
\<close>

fun find_request :: "nat \<Rightarrow> HttpRequestLongPoll \<Rightarrow> HttpRequestLongPoll option" where
  "find_request k (HttpRequestLongPoll i b None s u x) =
     (if s = k then Some (HttpRequestLongPoll i b None s u x) else None)"
| "find_request k (HttpRequestLongPoll i b (Some q) s u x) =
     (if s = k then Some (HttpRequestLongPoll i b (Some q) s u x) else find_request k q)"

fun deliver ::
  "(HttpRequestLongPoll \<Rightarrow> HttpRequestLongPoll \<times> effect list) \<Rightarrow> nat \<Rightarrow>
   HttpRequestLongPoll \<Rightarrow> HttpRequestLongPoll \<times> effect list" where
  "deliver f k (HttpRequestLongPoll i b None s u x) =
     (if s = k then f (HttpRequestLongPoll i b None s u x)
      else (HttpRequestLongPoll i b None s u x, []))"
| "deliver f k (HttpRequestLongPoll i b (Some q) s u x) =
     (if s = k then f (HttpRequestLongPoll i b (Some q) s u x)
      else (case deliver f k q of
              (q', es) \<Rightarrow> (HttpRequestLongPoll i b (Some q') s u x, es)))"

text \<open>
  The second rule is the order of ready states. The ready state of an XHR that receives a
  response moves forward one state at a time (opened, headers received, loading, done), so
  the handler of a request sees the header-received state before any later one. A change
  that skips a state is no event of the browser and does nothing here. Only a network
  error and \<open>abort\<close> go to the done state at once. On a network error the XHR has status
  0 and no response, the handler runs, and the browser calls \<open>onerror\<close>, which is the
  error callback of the transport. On \<open>abort\<close> the handler runs in the same way, no
  error is reported, and the XHR is left unsent (\<open>readyState = 0\<close>). The code aborts the
  current request in \<open>close\<close> and in the open timeout; here the handler call of an
  aborted request is an event like the others and may come for any request of the chain.
\<close>

definition readystatechange ::
  "(string \<Rightarrow> json option) \<Rightarrow> XMLHttpRequest \<Rightarrow> HttpRequestLongPoll \<Rightarrow>
   HttpRequestLongPoll \<times> effect list" where
  "readystatechange parse x r =
     (if readyState x \<le> Suc (readyState (xmlHttpRequest r))
      then onreadystatechange parse (set_xmlHttpRequest x r)
      else (r, []))"

definition networkError :: XMLHttpRequest where
  "networkError = \<lparr>readyState = 4, status = 0, responseText = []\<rparr>"

definition aborted ::
  "(string \<Rightarrow> json option) \<Rightarrow> HttpRequestLongPoll \<Rightarrow> HttpRequestLongPoll \<times> effect list" where
  "aborted parse r =
     (case onreadystatechange parse (set_xmlHttpRequest networkError r) of
        (r', es) \<Rightarrow> (set_xmlHttpRequest newXMLHttpRequest r', es))"

text \<open>
  The callback of a timer that fires. The open timeout belongs to the request that armed
  it, named by its chain position. A pending open timeout is always that of the current
  request (\<open>open_timeout_of_current_request\<close> below), so the case of a request that the
  transport no longer holds does not arise; such a request has been aborted and has no
  events of its own. The other callbacks belong to other components.
\<close>

datatype poll_event =
  Call http_call
| ReadyStateChange nat XMLHttpRequest
| NetworkError nat
| Aborted nat
| TimeoutFires nat

definition timerCallback ::
  "callback \<Rightarrow> HttpRequest \<Rightarrow> timers \<Rightarrow> (HttpRequest \<times> timers) \<times> effect list" where
  "timerCallback cb this env =
     (case cb of
        HttpTimeout \<Rightarrow>
          (case httpTimeoutCallback this env of (this', env', es) \<Rightarrow> ((this', env'), es))
      | PollOpenTimeout k \<Rightarrow>
          (case (case httpRequest this of None \<Rightarrow> None | Some r \<Rightarrow> find_request k r) of
             None \<Rightarrow> ((this, env), [])
           | Some q \<Rightarrow>
               (case openTimeoutCallback q this env of (env', es) \<Rightarrow> ((this, env'), es)))
      | _ \<Rightarrow> ((this, env), []))"

fun poll_step ::
  "(string \<Rightarrow> json option) \<Rightarrow> poll_event \<Rightarrow> HttpRequest \<times> timers \<Rightarrow>
   (HttpRequest \<times> timers) \<times> effect list" where
  "poll_step parse (Call c) (this, env) = http_step c (this, env)"
| "poll_step parse (ReadyStateChange k x) (this, env) =
     (case httpRequest this of
        None \<Rightarrow> ((this, env), [])
      | Some r \<Rightarrow>
          (case deliver (readystatechange parse x) k r of
             (r', es) \<Rightarrow> ((this\<lparr>httpRequest := Some r'\<rparr>, env), es)))"
| "poll_step parse (NetworkError k) (this, env) =
     (case httpRequest this of
        None \<Rightarrow> ((this, env), [])
      | Some r \<Rightarrow>
          (case find_request k r of
             None \<Rightarrow> ((this, env), [])
           | Some q \<Rightarrow>
               (case deliver (\<lambda>q. onreadystatechange parse (set_xmlHttpRequest networkError q)) k r of
                  (r', es) \<Rightarrow>
                    (case onError (this\<lparr>httpRequest := Some r'\<rparr>) env of
                       (env', es') \<Rightarrow> ((this\<lparr>httpRequest := Some r'\<rparr>, env'), es @ es')))))"
| "poll_step parse (Aborted k) (this, env) =
     (case httpRequest this of
        None \<Rightarrow> ((this, env), [])
      | Some r \<Rightarrow>
          (case deliver (aborted parse) k r of
             (r', es) \<Rightarrow> ((this\<lparr>httpRequest := Some r'\<rparr>, env), es)))"
| "poll_step parse (TimeoutFires h) (this, env) =
     (case fires h env of
        None \<Rightarrow> ((this, env), [])
      | Some cb \<Rightarrow> timerCallback cb this (clearTimeout h env))"

fun poll_run ::
  "(string \<Rightarrow> json option) \<Rightarrow> poll_event list \<Rightarrow> HttpRequest \<times> timers \<Rightarrow>
   (HttpRequest \<times> timers) \<times> effect list" where
  "poll_run parse [] s = (s, [])"
| "poll_run parse (e # es) s =
     (case poll_step parse e s of
        (s1, out) \<Rightarrow> (case poll_run parse es s1 of (s2, out') \<Rightarrow> (s2, out @ out')))"

text \<open>\<open>retained\<close> counts the predecessors reached from the current request.\<close>

definition retained :: "HttpRequest \<Rightarrow> nat" where
  "retained this = (case httpRequest this of None \<Rightarrow> 0 | Some r \<Rightarrow> length (predecessors r))"

lemma previousRequest_set_xmlHttpRequest [simp]:
  "previousRequest (set_xmlHttpRequest x r) = previousRequest r"
  by (cases r) simp

lemma xmlHttpRequest_set_xmlHttpRequest [simp]:
  "xmlHttpRequest (set_xmlHttpRequest x r) = x"
  by (cases r) simp

lemma streamIndex_set_xmlHttpRequest [simp]: "streamIndex (set_xmlHttpRequest x r) = streamIndex r"
  by (cases r) simp
lemma streamIndex_set_previousRequest [simp]: "streamIndex (set_previousRequest p r) = streamIndex r"
  by (cases r) simp
lemma streamIndex_set_buffer [simp]: "streamIndex (set_buffer b r) = streamIndex r"
  by (cases r) simp
lemma streamIndex_set_index [simp]: "streamIndex (set_index i r) = streamIndex r"
  by (cases r) simp
lemma xmlHttpRequest_set_previousRequest [simp]: "xmlHttpRequest (set_previousRequest p r) = xmlHttpRequest r"
  by (cases r) simp
lemma xmlHttpRequest_set_buffer [simp]: "xmlHttpRequest (set_buffer b r) = xmlHttpRequest r"
  by (cases r) simp
lemma xmlHttpRequest_set_index [simp]: "xmlHttpRequest (set_index i r) = xmlHttpRequest r"
  by (cases r) simp

lemma handleStream_keeps_request:
  "streamIndex (fst (handleStream parse r)) = streamIndex r \<and>
   xmlHttpRequest (fst (handleStream parse r)) = xmlHttpRequest r"
  by (auto simp: handleStream_def Let_def split: prod.splits option.splits)

lemma onreadystatechange_keeps_request:
  "streamIndex (fst (onreadystatechange parse r)) = streamIndex r \<and>
   xmlHttpRequest (fst (onreadystatechange parse r)) = xmlHttpRequest r"
  using handleStream_keeps_request [of parse r]
  by (auto simp: onreadystatechange_def clearPreviousRequest_def split: prod.splits option.splits)

lemma predecessors_Nil_iff: "predecessors r = [] \<longleftrightarrow> previousRequest r = None"
  by (simp add: predecessors_eq [of r] split: option.splits)

lemma onreadystatechange_keeps_released:
  "previousRequest r = None \<Longrightarrow> previousRequest (fst (onreadystatechange parse r)) = None"
  by (auto simp: onreadystatechange_def clearPreviousRequest_def split: prod.splits option.splits)
    (metis fst_conv previousRequest_handleStream)

lemma onreadystatechange_releases_at_headers:
  "readyState (xmlHttpRequest r) = 2 \<Longrightarrow> previousRequest (fst (onreadystatechange parse r)) = None"
  by (auto simp: onreadystatechange_def needsClearPreviousRequest_def clearPreviousRequest_def
      isSuccess_def split: option.splits)

text \<open>A handler that keeps the chain position and adds no predecessor.\<close>

definition handler_like :: "(HttpRequestLongPoll \<Rightarrow> HttpRequestLongPoll \<times> effect list) \<Rightarrow> bool" where
  "handler_like f =
     (\<forall>q. streamIndex (fst (f q)) = streamIndex q \<and>
          length (predecessors (fst (f q))) \<le> length (predecessors q))"

lemma readystatechange_handler_like: "handler_like (readystatechange parse x)"
proof -
  have "length (predecessors (fst (onreadystatechange parse (set_xmlHttpRequest x q)))) \<le>
      length (predecessors q)" for q
    using onreadystatechange_predecessors [of parse "set_xmlHttpRequest x q"]
      predecessors_cong [of "set_xmlHttpRequest x q" q] by simp
  then show ?thesis
    by (simp add: handler_like_def readystatechange_def onreadystatechange_keeps_request)
qed

lemma networkError_handler_like:
  "handler_like (\<lambda>q. onreadystatechange parse (set_xmlHttpRequest x q))"
proof -
  have "length (predecessors (fst (onreadystatechange parse (set_xmlHttpRequest x q)))) \<le>
      length (predecessors q)" for q
    using onreadystatechange_predecessors [of parse "set_xmlHttpRequest x q"]
      predecessors_cong [of "set_xmlHttpRequest x q" q] by simp
  then show ?thesis
    by (simp add: handler_like_def onreadystatechange_keeps_request)
qed

lemma fst_aborted:
  "fst (aborted parse r) =
     set_xmlHttpRequest newXMLHttpRequest
       (fst (onreadystatechange parse (set_xmlHttpRequest networkError r)))"
  by (simp add: aborted_def split: prod.splits)

lemma aborted_handler_like: "handler_like (aborted parse)"
proof -
  have "length (predecessors (fst (aborted parse q))) \<le> length (predecessors q)" for q
    using onreadystatechange_predecessors [of parse "set_xmlHttpRequest networkError q"]
      predecessors_cong [of "set_xmlHttpRequest networkError q" q]
      predecessors_cong [of "fst (aborted parse q)"
        "fst (onreadystatechange parse (set_xmlHttpRequest networkError q))"]
    by (simp add: fst_aborted)
  moreover have "streamIndex (fst (aborted parse q)) = streamIndex q" for q
    using onreadystatechange_keeps_request [of parse "set_xmlHttpRequest networkError q"]
    by (simp add: fst_aborted)
  ultimately show ?thesis by (simp add: handler_like_def)
qed

lemma aborted_released:
  "previousRequest r = None \<Longrightarrow> previousRequest (fst (aborted parse r)) = None"
  using onreadystatechange_keeps_released [of "set_xmlHttpRequest networkError r" parse]
  by (simp add: fst_aborted)

lemma aborted_unsent: "readyState (xmlHttpRequest (fst (aborted parse r))) < 2"
  by (simp add: fst_aborted newXMLHttpRequest_def)

lemma deliver_here: "streamIndex r = k \<Longrightarrow> deliver f k r = f r"
  by (cases r rule: predecessors.cases) simp_all

lemma deliver_elsewhere:
  assumes "streamIndex r \<noteq> k"
  shows "streamIndex (fst (deliver f k r)) = streamIndex r"
    and "xmlHttpRequest (fst (deliver f k r)) = xmlHttpRequest r"
    and "previousRequest (fst (deliver f k r)) = None \<longleftrightarrow> previousRequest r = None"
  using assms by (cases r rule: predecessors.cases; simp split: prod.splits)+

lemma deliver_predecessors:
  "handler_like f \<Longrightarrow> length (predecessors (fst (deliver f k r))) \<le> length (predecessors r)"
proof (induction f k r rule: deliver.induct)
  case (1 f k i b s u x)
  let ?r = "HttpRequestLongPoll i b None s u x"
  have "length (predecessors (fst (f ?r))) \<le> length (predecessors ?r)"
    using 1 unfolding handler_like_def by blast
  then show ?case by auto
next
  case (2 f k i b q s u x)
  let ?r = "HttpRequestLongPoll i b (Some q) s u x"
  show ?case
  proof (cases "s = k")
    case True
    have "length (predecessors (fst (f ?r))) \<le> length (predecessors ?r)"
      using 2(2) unfolding handler_like_def by blast
    with True show ?thesis by simp
  next
    case False
    then have "length (predecessors (fst (deliver f k q))) \<le> length (predecessors q)"
      using 2 by simp
    with False show ?thesis by (auto split: prod.splits)
  qed
qed

lemma find_request_here: "streamIndex r = k \<Longrightarrow> find_request k r = Some r"
  by (cases r rule: predecessors.cases) simp_all


text \<open>
  The timers of a running transport. At most the open timeout of the current request and
  one idle timeout are pending, the open timeout first. The idle timeout is the one whose
  handle the transport holds, and while it is pending the current request has released its
  predecessor, or it is still before the header-received state with its open timeout
  pending.
\<close>

definition timers_shape ::
  "nat \<Rightarrow> bool \<Rightarrow> bool \<Rightarrow> nat option \<Rightarrow> (nat \<times> callback \<times> nat) list \<Rightarrow> bool" where
  "timers_shape si released unopened tm ps =
     (ps = [] \<or>
      (\<exists>ho. ps = [(ho, PollOpenTimeout si, 5000)]) \<or>
      (\<exists>hi. ps = [(hi, HttpTimeout, 25000)] \<and> tm = Some hi \<and> released) \<or>
      (\<exists>ho hi. ps = [(ho, PollOpenTimeout si, 5000), (hi, HttpTimeout, 25000)] \<and>
         ho \<noteq> hi \<and> tm = Some hi \<and> (released \<or> unopened)))"

definition poll_inv :: "HttpRequest \<times> timers \<Rightarrow> bool" where
  "poll_inv s =
     (case httpRequest (fst s) of
        None \<Rightarrow> pending (snd s) = []
      | Some r \<Rightarrow>
          length (predecessors r) \<le> 1 \<and>
          timers_shape (streamIndex r) (previousRequest r = None)
            (readyState (xmlHttpRequest r) < 2) (timeout (fst s)) (pending (snd s)))"

lemma timers_shape_weaken:
  assumes "timers_shape si released unopened tm ps"
    and "released \<Longrightarrow> released'"
    and "unopened \<Longrightarrow> released' \<or> unopened'"
  shows "timers_shape si released' unopened' tm ps"
  using assms unfolding timers_shape_def by blast

lemma timers_shape_cleared:
  assumes "timers_shape si released unopened tm (pending env)"
  shows "timers_shape si released' unopened' tm (pending (clearTimeout_opt tm env))"
proof -
  have p: "pending (clearTimeout_opt k env) =
      (case k of None \<Rightarrow> pending env | Some h \<Rightarrow> filter (\<lambda>e. fst e \<noteq> h) (pending env))"
    for k
    by (simp add: clearTimeout_opt_def clearTimeout_def split: option.splits)
  from assms consider
      (none) "pending env = []"
    | (unopened) ho where "pending env = [(ho, PollOpenTimeout si, 5000)]"
    | (idle) hi where "pending env = [(hi, HttpTimeout, 25000)]" "tm = Some hi"
    | (both) ho hi where
        "pending env = [(ho, PollOpenTimeout si, 5000), (hi, HttpTimeout, 25000)]"
        "ho \<noteq> hi" "tm = Some hi"
    unfolding timers_shape_def by blast
  then show ?thesis
  proof cases
    case none
    then have "pending (clearTimeout_opt tm env) = []" by (simp add: p split: option.splits)
    then show ?thesis unfolding timers_shape_def by blast
  next
    case unopened
    then have "pending (clearTimeout_opt tm env) = [] \<or>
        pending (clearTimeout_opt tm env) = [(ho, PollOpenTimeout si, 5000)]"
      by (simp add: p split: option.splits)
    then show ?thesis unfolding timers_shape_def by blast
  next
    case idle
    then have "pending (clearTimeout_opt tm env) = []" by (simp add: p)
    then show ?thesis unfolding timers_shape_def by blast
  next
    case both
    then have "pending (clearTimeout_opt tm env) = [(ho, PollOpenTimeout si, 5000)]"
      by (simp add: p)
    then show ?thesis unfolding timers_shape_def by blast
  qed
qed

lemma poll_inv_call:
  assumes "poll_inv (t, env)"
  shows "poll_inv (fst (http_step c (t, env)))"
proof (cases c)
  case (HttpStart i token)
  show ?thesis
  proof (cases "httpRequest t")
    case None
    then have "pending env = []" using assms by (simp add: poll_inv_def)
    then show ?thesis
      using None
      by (simp add: HttpStart poll_inv_def HttpRequest_start_def startXhrStream_def
          setHTTPTimeout_def HttpRequestLongPoll_send_def setTimeout_def
          newHttpRequestLongPoll_def timers_shape_def split: prod.splits)
  next
    case (Some r)
    then show ?thesis using assms by (simp add: HttpStart HttpRequest_start_def)
  qed
next
  case (HttpSend d)
  show ?thesis using assms
    by (auto simp: HttpSend HttpRequest_send_def poll_inv_def split: option.splits)
next
  case HttpClose
  show ?thesis
  proof (cases "httpRequest t")
    case None
    then show ?thesis using assms
      by (auto simp: HttpClose HttpRequest_close_def poll_inv_def clearTimeout_opt_def
          clearTimeout_def split: option.splits)
  next
    case (Some r)
    then show ?thesis using assms timers_shape_cleared [of "streamIndex r" _ _ "timeout t" env]
      by (auto simp: HttpClose HttpRequest_close_def poll_inv_def)
  qed
qed


lemma deliver_streamIndex:
  "handler_like f \<Longrightarrow> streamIndex (fst (deliver f k r)) = streamIndex r"
  using deliver_here [of r k f] deliver_elsewhere(1) [of r k f]
  by (cases "streamIndex r = k") (auto simp: handler_like_def)

lemma readystatechange_released:
  "previousRequest r = None \<Longrightarrow> previousRequest (fst (readystatechange parse x r)) = None"
  using onreadystatechange_keeps_released [of "set_xmlHttpRequest x r" parse]
  by (simp add: readystatechange_def)

lemma readystatechange_unopened:
  assumes "readyState (xmlHttpRequest r) < 2"
  shows "previousRequest (fst (readystatechange parse x r)) = None \<or>
     readyState (xmlHttpRequest (fst (readystatechange parse x r))) < 2"
proof (cases "readyState x \<le> Suc (readyState (xmlHttpRequest r))")
  case False
  then show ?thesis using assms by (simp add: readystatechange_def)
next
  case True
  let ?r0 = "set_xmlHttpRequest x r"
  show ?thesis
  proof (cases "readyState x = 2")
    case True
    then have "previousRequest (fst (onreadystatechange parse ?r0)) = None"
      using onreadystatechange_releases_at_headers [of ?r0 parse] by simp
    then show ?thesis using \<open>readyState x \<le> Suc (readyState (xmlHttpRequest r))\<close>
      by (simp add: readystatechange_def)
  next
    case False
    then have "readyState x < 2" using True assms by simp
    moreover have "xmlHttpRequest (fst (onreadystatechange parse ?r0)) = x"
      using onreadystatechange_keeps_request [of parse ?r0] by simp
    ultimately show ?thesis using True by (simp add: readystatechange_def)
  qed
qed

lemma poll_inv_deliver:
  assumes "poll_inv (t, env)" "httpRequest t = Some r" "handler_like f"
    and rel: "\<And>q. previousRequest q = None \<Longrightarrow> previousRequest (fst (f q)) = None"
    and unop: "\<And>q. readyState (xmlHttpRequest q) < 2 \<Longrightarrow>
      previousRequest (fst (f q)) = None \<or> readyState (xmlHttpRequest (fst (f q))) < 2"
  shows "poll_inv (t\<lparr>httpRequest := Some (fst (deliver f k r))\<rparr>, env)"
proof -
  let ?r' = "fst (deliver f k r)"
  have inv: "length (predecessors r) \<le> 1"
    "timers_shape (streamIndex r) (previousRequest r = None)
       (readyState (xmlHttpRequest r) < 2) (timeout t) (pending env)"
    using assms(1,2) by (simp_all add: poll_inv_def)
  have len: "length (predecessors ?r') \<le> 1"
    using deliver_predecessors [OF assms(3), of k r] inv(1) by simp
  have si: "streamIndex ?r' = streamIndex r" using assms(3) by (rule deliver_streamIndex)
  have rel': "previousRequest r = None \<Longrightarrow> previousRequest ?r' = None"
    using deliver_here [of r k f] deliver_elsewhere(3) [of r k f] rel [of r]
    by (cases "streamIndex r = k") auto
  have unop': "readyState (xmlHttpRequest r) < 2 \<Longrightarrow>
      previousRequest ?r' = None \<or> readyState (xmlHttpRequest ?r') < 2"
    using deliver_here [of r k f] deliver_elsewhere(2) [of r k f] unop [of r]
    by (cases "streamIndex r = k") auto
  have "timers_shape (streamIndex r) (previousRequest ?r' = None)
      (readyState (xmlHttpRequest ?r') < 2) (timeout t) (pending env)"
    using inv(2) rel' unop' by (rule timers_shape_weaken)
  then show ?thesis using len si by (simp add: poll_inv_def)
qed

lemma poll_inv_ready:
  assumes "poll_inv (t, env)"
  shows "poll_inv (fst (poll_step parse (ReadyStateChange k x) (t, env)))"
proof (cases "httpRequest t")
  case None
  then show ?thesis using assms by simp
next
  case (Some r)
  have st: "fst (poll_step parse (ReadyStateChange k x) (t, env)) =
      (t\<lparr>httpRequest := Some (fst (deliver (readystatechange parse x) k r))\<rparr>, env)"
    using Some by (simp split: prod.splits)
  show ?thesis unfolding st
    using assms Some readystatechange_handler_like readystatechange_released
      readystatechange_unopened
    by (rule poll_inv_deliver)
qed

lemma poll_inv_aborted:
  assumes "poll_inv (t, env)"
  shows "poll_inv (fst (poll_step parse (Aborted k) (t, env)))"
proof (cases "httpRequest t")
  case None
  then show ?thesis using assms by simp
next
  case (Some r)
  have st: "fst (poll_step parse (Aborted k) (t, env)) =
      (t\<lparr>httpRequest := Some (fst (deliver (aborted parse) k r))\<rparr>, env)"
    using Some by (simp split: prod.splits)
  have u: "previousRequest (fst (aborted parse q)) = None \<or>
      readyState (xmlHttpRequest (fst (aborted parse q))) < 2" for q
    using aborted_unsent [of parse q] by blast
  show ?thesis unfolding st
    using assms Some aborted_handler_like aborted_released u
    by (rule poll_inv_deliver)
qed

lemma poll_inv_error:
  assumes "poll_inv (t, env)"
  shows "poll_inv (fst (poll_step parse (NetworkError k) (t, env)))"
proof (cases "httpRequest t")
  case None
  then show ?thesis using assms by simp
next
  case (Some r)
  show ?thesis
  proof (cases "find_request k r")
    case None
    then show ?thesis using Some assms by simp
  next
    case (Some q)
    let ?f = "\<lambda>q. onreadystatechange parse (set_xmlHttpRequest networkError q)"
    let ?r' = "fst (deliver ?f k r)"
    have st: "fst (poll_step parse (NetworkError k) (t, env)) =
        (t\<lparr>httpRequest := Some ?r'\<rparr>, clearTimeout_opt (timeout t) env)"
      using Some \<open>httpRequest t = Some r\<close> by (simp add: onError_def split: prod.splits)
    have h: "handler_like ?f" by (rule networkError_handler_like)
    have inv: "length (predecessors r) \<le> 1"
      "timers_shape (streamIndex r) (previousRequest r = None)
         (readyState (xmlHttpRequest r) < 2) (timeout t) (pending env)"
      using assms \<open>httpRequest t = Some r\<close> by (simp_all add: poll_inv_def)
    have len: "length (predecessors ?r') \<le> 1"
      using deliver_predecessors [OF h, of k r] inv(1) by simp
    have si: "streamIndex ?r' = streamIndex r" using h by (rule deliver_streamIndex)
    have "timers_shape (streamIndex r) (previousRequest ?r' = None)
        (readyState (xmlHttpRequest ?r') < 2) (timeout t)
        (pending (clearTimeout_opt (timeout t) env))"
      using inv(2) by (rule timers_shape_cleared)
    then show ?thesis unfolding st using len si by (simp add: poll_inv_def)
  qed
qed


lemma fires_none: "pending env = [] \<Longrightarrow> fires h env = None"
  by (simp add: fires_def)

lemma fires_single:
  "pending env = [(h1, cb, d)] \<Longrightarrow> fires h env = (if h = h1 then Some cb else None)"
  by (simp add: fires_def)

lemma fires_open_before_idle:
  "pending env = [(ho, cb, 5000), (hi, cb', 25000)] \<Longrightarrow> ho \<noteq> hi \<Longrightarrow>
   fires h env = (if h = ho then Some cb else None)"
  by (simp add: fires_def)

lemma openTimeoutCallback_pending:
  "pending (fst (openTimeoutCallback q t env)) =
     (if readyState (xmlHttpRequest q) < 2 then pending (clearTimeout_opt (timeout t) env)
      else pending env)"
  by (simp add: openTimeoutCallback_def onError_def)

lemma httpTimeoutCallback_chains:
  assumes "httpRequest t = Some r" "pending env = []"
  shows "\<exists>new. httpRequest (fst (httpTimeoutCallback t env)) = Some new \<and>
     predecessors new = r # predecessors r \<and>
     streamIndex new = Suc (streamIndex r) \<and>
     readyState (xmlHttpRequest new) = 1 \<and>
     timeout (fst (httpTimeoutCallback t env)) = Some (Suc (Suc (created env))) \<and>
     pending (fst (snd (httpTimeoutCallback t env))) =
       [(Suc (created env), PollOpenTimeout (Suc (streamIndex r)), 5000),
        (Suc (Suc (created env)), HttpTimeout, 25000)]"
  using assms
  by (simp add: httpTimeoutCallback_def startXhrStream_def HttpRequestLongPoll_send_def
      setHTTPTimeout_def setTimeout_def newHttpRequestLongPoll_def newXMLHttpRequest_def
      split: prod.splits)

lemma poll_inv_fires:
  assumes "poll_inv (t, env)"
  shows "poll_inv (fst (poll_step parse (TimeoutFires h) (t, env)))"
proof (cases "httpRequest t")
  case None
  then have "pending env = []" using assms by (simp add: poll_inv_def)
  then show ?thesis using assms by (simp add: fires_none)
next
  case (Some r)
  let ?si = "streamIndex r"
  let ?env = "clearTimeout h env"
  have len: "length (predecessors r) \<le> 1" using assms Some by (simp add: poll_inv_def)
  have "timers_shape ?si (previousRequest r = None)
      (readyState (xmlHttpRequest r) < 2) (timeout t) (pending env)"
    using assms Some by (simp add: poll_inv_def)
  then consider
      (none) "pending env = []"
    | (unopened) ho where "pending env = [(ho, PollOpenTimeout ?si, 5000)]"
    | (idle) hi where "pending env = [(hi, HttpTimeout, 25000)]" "timeout t = Some hi"
        "previousRequest r = None"
    | (both) ho hi where
        "pending env = [(ho, PollOpenTimeout ?si, 5000), (hi, HttpTimeout, 25000)]"
        "ho \<noteq> hi" "timeout t = Some hi"
        "previousRequest r = None \<or> readyState (xmlHttpRequest r) < 2"
    unfolding timers_shape_def by blast
  then show ?thesis
  proof cases
    case none
    then show ?thesis using assms by (simp add: fires_none)
  next
    case unopened
    show ?thesis
    proof (cases "h = ho")
      case False
      then show ?thesis using assms unopened by (simp add: fires_single)
    next
      case True
      have e: "pending ?env = []" using unopened True by (simp add: clearTimeout_def)
      have st: "fst (poll_step parse (TimeoutFires h) (t, env)) =
          (t, fst (openTimeoutCallback r t ?env))"
        using unopened True Some
        by (simp add: fires_single timerCallback_def find_request_here split: prod.splits)
      have "pending (fst (openTimeoutCallback r t ?env)) = []"
        using e by (simp add: openTimeoutCallback_pending clearTimeout_opt_def clearTimeout_def
            split: option.splits)
      then show ?thesis unfolding st using len Some by (simp add: poll_inv_def timers_shape_def)
    qed
  next
    case idle
    show ?thesis
    proof (cases "h = hi")
      case False
      then show ?thesis using assms idle by (simp add: fires_single)
    next
      case True
      have e: "pending ?env = []" using idle True by (simp add: clearTimeout_def)
      have st: "fst (poll_step parse (TimeoutFires h) (t, env)) =
          (fst (httpTimeoutCallback t ?env), fst (snd (httpTimeoutCallback t ?env)))"
        using idle True by (simp add: fires_single timerCallback_def split: prod.splits)
      obtain new where n: "httpRequest (fst (httpTimeoutCallback t ?env)) = Some new"
          "predecessors new = r # predecessors r"
          "streamIndex new = Suc ?si"
          "readyState (xmlHttpRequest new) = 1"
          "timeout (fst (httpTimeoutCallback t ?env)) = Some (Suc (Suc (created ?env)))"
          "pending (fst (snd (httpTimeoutCallback t ?env))) =
             [(Suc (created ?env), PollOpenTimeout (Suc ?si), 5000),
              (Suc (Suc (created ?env)), HttpTimeout, 25000)]"
        using httpTimeoutCallback_chains [OF Some e] by blast
      have "predecessors r = []" using idle(3) by (simp add: predecessors_Nil_iff)
      then have "length (predecessors new) \<le> 1" using n(2) by simp
      then show ?thesis unfolding st using n by (simp add: poll_inv_def timers_shape_def)
    qed
  next
    case both
    show ?thesis
    proof (cases "h = ho")
      case False
      then show ?thesis using assms both by (simp add: fires_open_before_idle)
    next
      case True
      have e: "pending ?env = [(hi, HttpTimeout, 25000)]"
        using both True by (simp add: clearTimeout_def)
      have st: "fst (poll_step parse (TimeoutFires h) (t, env)) =
          (t, fst (openTimeoutCallback r t ?env))"
        using both True Some
        by (simp add: fires_open_before_idle timerCallback_def find_request_here
            split: prod.splits)
      show ?thesis
      proof (cases "readyState (xmlHttpRequest r) < 2")
        case True
        then have "pending (fst (openTimeoutCallback r t ?env)) = []"
          using e both(3)
          by (simp add: openTimeoutCallback_pending clearTimeout_opt_def clearTimeout_def)
        then show ?thesis unfolding st using len Some by (simp add: poll_inv_def timers_shape_def)
      next
        case False
        then have "pending (fst (openTimeoutCallback r t ?env)) = [(hi, HttpTimeout, 25000)]"
          using e by (simp add: openTimeoutCallback_pending)
        moreover have "previousRequest r = None" using both(4) False by blast
        ultimately show ?thesis unfolding st using len Some both(3)
          by (simp add: poll_inv_def timers_shape_def)
      qed
    qed
  qed
qed

lemma poll_inv_step: "poll_inv s \<Longrightarrow> poll_inv (fst (poll_step parse e s))"
proof -
  assume a: "poll_inv s"
  obtain t env where s: "s = (t, env)" by (cases s)
  show "poll_inv (fst (poll_step parse e s))"
  proof (cases e)
    case (Call c)
    then show ?thesis using poll_inv_call [of t env c] a s by simp
  next
    case (ReadyStateChange k x)
    then show ?thesis using poll_inv_ready [of t env parse k x] a s by simp
  next
    case (NetworkError k)
    then show ?thesis using poll_inv_error [of t env parse k] a s by simp
  next
    case (Aborted k)
    then show ?thesis using poll_inv_aborted [of t env parse k] a s by simp
  next
    case (TimeoutFires h)
    then show ?thesis using poll_inv_fires [of t env parse h] a s by simp
  qed
qed

lemma poll_inv_run: "poll_inv s \<Longrightarrow> poll_inv (fst (poll_run parse es s))"
proof (induction es arbitrary: s)
  case Nil
  then show ?case by simp
next
  case (Cons e es)
  have "poll_inv (fst (poll_step parse e s))" using Cons.prems by (rule poll_inv_step)
  then have "poll_inv (fst (poll_run parse es (fst (poll_step parse e s))))" by (rule Cons.IH)
  then show ?case by (auto split: prod.splits)
qed

lemma poll_inv_new: "poll_inv (newHttpRequest secure host port path key, noTimers)"
  by (simp add: poll_inv_def newHttpRequest_def noTimers_def)

lemma poll_inv_retained: "poll_inv s \<Longrightarrow> retained (fst s) \<le> 1"
  by (simp add: poll_inv_def retained_def split: option.splits)


lemma open_timeout_of_current_request:
  assumes "(h, PollOpenTimeout k, d) \<in>
      set (pending (snd (fst (poll_run parse es (newHttpRequest secure host port path key, noTimers)))))"
  shows "\<exists>r. httpRequest (fst (fst (poll_run parse es
      (newHttpRequest secure host port path key, noTimers)))) = Some r \<and> streamIndex r = k"
proof -
  let ?s = "fst (poll_run parse es (newHttpRequest secure host port path key, noTimers))"
  have "poll_inv ?s" using poll_inv_new by (rule poll_inv_run)
  then show ?thesis using assms
    by (auto simp: poll_inv_def timers_shape_def split: option.splits)
qed

text \<open>
  Claim C8. For a request that has a previous request: when its \<open>onreadystatechange\<close>
  handler runs with the request in the header-received state (\<open>readyState = 2\<close>), or with
  the previous request still before that state (\<open>readyState < 2\<close>), the previous request
  is aborted and the reference to it is dropped, so the request then retains no
  predecessor. The handler never adds a predecessor. A request holds its predecessor in the
  single field \<open>previousRequest\<close>; when the idle timeout chains a new request onto a
  current one that has released its own predecessor, the new request retains exactly one.
  Consequently at most one predecessor is retained in every state that a transport
  reaches from its creation, through any sequence of public calls, ready-state changes,
  network errors, aborts and timers that fire: the open timeout aborts a request that has not
  reached the header-received state and its error callback clears the idle timeout, so no
  request is chained onto one that still holds its predecessor.
\<close>

theorem previous_request_handoff:
  "(previousRequest this = Some p \<and>
      (readyState (xmlHttpRequest this) = 2 \<or> readyState (xmlHttpRequest p) < 2) \<longrightarrow>
      onreadystatechange parse this =
        (set_previousRequest None this, [PollAbort (streamIndex p)]) \<and>
      previousRequest (fst (onreadystatechange parse this)) = None \<and>
      predecessors (fst (onreadystatechange parse this)) = []) \<and>
   length (predecessors (fst (onreadystatechange parse this))) \<le> length (predecessors this) \<and>
   (httpRequest t = Some old \<and> previousRequest old = None \<longrightarrow>
      (\<exists>new. httpRequest (fst (httpTimeoutCallback t env)) = Some new \<and>
             predecessors new = [old])) \<and>
   retained (fst (fst (poll_run parse es
     (newHttpRequest secure host port path key, noTimers)))) \<le> 1"
proof (intro conjI impI)
  assume a: "previousRequest this = Some p \<and>
      (readyState (xmlHttpRequest this) = 2 \<or> readyState (xmlHttpRequest p) < 2)"
  then show h: "onreadystatechange parse this =
        (set_previousRequest None this, [PollAbort (streamIndex p)])"
    using onreadystatechange_handoff by blast
  show "previousRequest (fst (onreadystatechange parse this)) = None"
    by (simp add: h)
  show "predecessors (fst (onreadystatechange parse this)) = []"
    by (simp add: h predecessors_eq [of "set_previousRequest None this"])
next
  show "length (predecessors (fst (onreadystatechange parse this))) \<le> length (predecessors this)"
    by (rule onreadystatechange_predecessors)
next
  assume a: "httpRequest t = Some old \<and> previousRequest old = None"
  then have "predecessors old = []" by (simp add: predecessors_eq [of old])
  with a show "\<exists>new. httpRequest (fst (httpTimeoutCallback t env)) = Some new \<and>
      predecessors new = [old]"
    using httpTimeoutCallback_chain [of t old env] by auto
next
  have "poll_inv (fst (poll_run parse es (newHttpRequest secure host port path key, noTimers)))"
    using poll_inv_new by (rule poll_inv_run)
  then show "retained (fst (fst (poll_run parse es
      (newHttpRequest secure host port path key, noTimers)))) \<le> 1"
    by (rule poll_inv_retained)
qed

text \<open>
  A transport whose current request has no predecessor, and a run of two chained
  requests. The idle timeout (handle 2) does not fire while the open
  timeout (handle 1) is pending; once request 0 has received its headers and both timers
  have fired in their order, request 1 is chained onto it and retains it, with the timers
  3 and 4 pending. When request 1 receives its headers it releases request 0, and the
  next idle timeout chains request 2, which again retains one predecessor. When the open
  timeout fires on a request that has received no headers, the request is aborted, the
  transport reports the disconnect, and the idle timeout is cleared and does not fire.
\<close>

definition chained_transport :: HttpRequest where
  "chained_transport =
     \<lparr>disconnected = False, sessionId = Some ''id'', streamUrl = Some ''u'', timeout = Some 2,
      messagesQueue = [],
      httpRequest = Some (HttpRequestLongPoll 3 [] None 0 ''u''
        \<lparr>readyState = 3, status = 200, responseText = ''[0]\<newline>[1]\<newline>''\<rparr>),
      baseUrl = ''b''\<rparr>"

definition sample_events :: "poll_event list" where
  "sample_events =
     [Call (HttpStart (Some ''id'') (Some ''tok'')),
      TimeoutFires 2,
      ReadyStateChange 0 \<lparr>readyState = 2, status = 200, responseText = []\<rparr>,
      TimeoutFires 1,
      ReadyStateChange 0 \<lparr>readyState = 3, status = 200, responseText = ''[0]\<newline>[1]\<newline>''\<rparr>,
      TimeoutFires 2,
      ReadyStateChange 0 \<lparr>readyState = 3, status = 200, responseText = ''[0]\<newline>[1]\<newline>[2]\<newline>''\<rparr>,
      TimeoutFires 4]"

theorem previous_request_handoff_witness:
  "onreadystatechange (\<lambda>s. Some (JString s))
     (HttpRequestLongPoll 1 []
        (Some (HttpRequestLongPoll 3 [] None 0 ''u''
           \<lparr>readyState = 3, status = 200, responseText = ''[0]\<newline>[1]\<newline>''\<rparr>))
        1 ''u'' \<lparr>readyState = 2, status = 200, responseText = []\<rparr>) =
     (HttpRequestLongPoll 1 [] None 1 ''u'' \<lparr>readyState = 2, status = 200, responseText = []\<rparr>,
      [PollAbort 0]) \<and>
   (\<exists>new. httpRequest (fst (httpTimeoutCallback chained_transport noTimers)) = Some new \<and>
      predecessors new =
        [HttpRequestLongPoll 3 [] None 0 ''u''
           \<lparr>readyState = 3, status = 200, responseText = ''[0]\<newline>[1]\<newline>''\<rparr>]) \<and>
   retained (fst (fst (poll_run (\<lambda>s. Some (JString s)) sample_events
     (newHttpRequest False ''h'' ''9000'' ''/'' ''peerjs'', noTimers)))) = 1 \<and>
   map fst (pending (snd (fst (poll_run (\<lambda>s. Some (JString s)) sample_events
     (newHttpRequest False ''h'' ''9000'' ''/'' ''peerjs'', noTimers))))) = [3, 4] \<and>
   retained (fst (fst (poll_run (\<lambda>s. Some (JString s))
     (sample_events @
        [ReadyStateChange 1 \<lparr>readyState = 2, status = 200, responseText = []\<rparr>])
     (newHttpRequest False ''h'' ''9000'' ''/'' ''peerjs'', noTimers)))) = 0 \<and>
   retained (fst (fst (poll_run (\<lambda>s. Some (JString s))
     (sample_events @
        [ReadyStateChange 1 \<lparr>readyState = 2, status = 200, responseText = []\<rparr>, TimeoutFires 3,
         TimeoutFires 4])
     (newHttpRequest False ''h'' ''9000'' ''/'' ''peerjs'', noTimers)))) = 1 \<and>
   poll_run (\<lambda>s. Some (JString s))
     [Call (HttpStart (Some ''id'') (Some ''tok'')), TimeoutFires 1, TimeoutFires 2]
     (newHttpRequest False ''h'' ''9000'' ''/'' ''peerjs'', noTimers) =
     poll_run (\<lambda>s. Some (JString s))
       [Call (HttpStart (Some ''id'') (Some ''tok'')), TimeoutFires 1]
       (newHttpRequest False ''h'' ''9000'' ''/'' ''peerjs'', noTimers) \<and>
   snd (poll_run (\<lambda>s. Some (JString s))
     [Call (HttpStart (Some ''id'') (Some ''tok'')), TimeoutFires 1]
     (newHttpRequest False ''h'' ''9000'' ''/'' ''peerjs'', noTimers)) =
     [PollSend ''http://h:9000/peerjs/id/tok'' 0, PollAbort 0, Emit Disconnected]"
proof -
  let ?old = "HttpRequestLongPoll 3 [] None 0 ''u''
      \<lparr>readyState = 3, status = 200, responseText = ''[0]\<newline>[1]\<newline>''\<rparr>"
  let ?req = "HttpRequestLongPoll 1 [] (Some ?old) 1 ''u''
      \<lparr>readyState = 2, status = 200, responseText = []\<rparr>"
  let ?P = "\<lambda>s. Some (JString s)"
  let ?new = "newHttpRequest False ''h'' ''9000'' ''/'' ''peerjs''"
  note defs = sample_events_def retained_def newHttpRequest_def noTimers_def
        HttpRequest_start_def startXhrStream_def setHTTPTimeout_def HttpRequestLongPoll_send_def
        newHttpRequestLongPoll_def newXMLHttpRequest_def setTimeout_def clearTimeout_def
        fires_def timerCallback_def openTimeoutCallback_def httpTimeoutCallback_def
        readystatechange_def onreadystatechange_def needsClearPreviousRequest_def
        clearPreviousRequest_def isSuccess_def handleStream_def getMessages_def array_get_def
        JSON_parse_at_def
  have a: "previousRequest ?req = Some ?old \<and>
      (readyState (xmlHttpRequest ?req) = 2 \<or> readyState (xmlHttpRequest ?old) < 2)"
    by simp
  have b: "set_previousRequest None ?req =
      HttpRequestLongPoll 1 [] None 1 ''u'' \<lparr>readyState = 2, status = 200, responseText = []\<rparr> \<and>
      streamIndex ?old = 0"
    by simp
  have c: "onreadystatechange ?P ?req =
      (HttpRequestLongPoll 1 [] None 1 ''u'' \<lparr>readyState = 2, status = 200, responseText = []\<rparr>,
       [PollAbort 0])"
    using previous_request_handoff [of ?req ?old ?P] a b by metis
  have t: "httpRequest chained_transport = Some ?old \<and> previousRequest ?old = None"
    by (simp add: chained_transport_def)
  have n: "\<exists>new. httpRequest (fst (httpTimeoutCallback chained_transport noTimers)) = Some new \<and>
      predecessors new = [?old]"
    using previous_request_handoff [of ?req ?old ?P chained_transport ?old noTimers] t by blast
  have d: "retained (fst (fst (poll_run ?P sample_events (?new, noTimers)))) = 1 \<and>
      map fst (pending (snd (fst (poll_run ?P sample_events (?new, noTimers))))) = [3, 4]"
    by (simp add: defs)
  have e: "retained (fst (fst (poll_run ?P
      (sample_events @
         [ReadyStateChange 1 \<lparr>readyState = 2, status = 200, responseText = []\<rparr>])
      (?new, noTimers)))) = 0"
    by (simp add: defs)
  have f: "retained (fst (fst (poll_run ?P
      (sample_events @
         [ReadyStateChange 1 \<lparr>readyState = 2, status = 200, responseText = []\<rparr>, TimeoutFires 3,
          TimeoutFires 4])
      (?new, noTimers)))) = 1"
    by (simp add: defs)
  have g: "poll_run ?P
        [Call (HttpStart (Some ''id'') (Some ''tok'')), TimeoutFires 1, TimeoutFires 2]
        (?new, noTimers) =
      poll_run ?P [Call (HttpStart (Some ''id'') (Some ''tok'')), TimeoutFires 1]
        (?new, noTimers) \<and>
      snd (poll_run ?P [Call (HttpStart (Some ''id'') (Some ''tok'')), TimeoutFires 1]
        (?new, noTimers)) =
      [PollSend ''http://h:9000/peerjs/id/tok'' 0, PollAbort 0, Emit Disconnected]"
    by (simp add: defs onError_def clearTimeout_opt_def js_str_def)
  show ?thesis using c n d e f g by simp
qed

subsection \<open>Sending before and after \<open>start\<close>\<close>

text \<open>Whether a call is a \<open>start\<close>, and the session ids handed to the \<open>start\<close> calls of a sequence.\<close>

definition is_start :: "http_call \<Rightarrow> bool" where
  "is_start c = (case c of HttpStart i token \<Rightarrow> True | _ \<Rightarrow> False)"

definition started_ids :: "http_call list \<Rightarrow> js_string list" where
  "started_ids cs = concat (map (\<lambda>c. case c of HttpStart i token \<Rightarrow> [i] | _ \<Rightarrow> []) cs)"

lemma http_run_append:
  "http_run (cs @ cs') s =
     (case http_run cs s of (s1, es) \<Rightarrow> (case http_run cs' s1 of (s2, es') \<Rightarrow> (s2, es @ es')))"
  by (induction cs arbitrary: s) (auto split: prod.splits)

lemma send_disconnected: "disconnected t \<Longrightarrow> HttpRequest_send d t = (t, [])"
  by (simp add: HttpRequest_send_def)

lemma close_disconnected: "disconnected t \<Longrightarrow> HttpRequest_close t env = (t, env, [])"
  by (simp add: HttpRequest_close_def)

lemma http_run_no_start_disconnected:
  "disconnected t \<Longrightarrow> \<forall>c \<in> set cs. \<not> is_start c \<Longrightarrow> http_run cs (t, env) = ((t, env), [])"
proof (induction cs)
  case Nil
  show ?case by simp
next
  case (Cons c cs)
  then have "http_step c (t, env) = ((t, env), [])"
    by (cases c) (simp_all add: is_start_def send_disconnected close_disconnected)
  with Cons show ?case by simp
qed

lemma sends_enqueue:
  "\<not> disconnected t \<Longrightarrow> \<not> truthy (sessionId t) \<Longrightarrow>
   http_run (map HttpSend ds) (t, env) = ((t\<lparr>messagesQueue := messagesQueue t @ ds\<rparr>, env), [])"
proof (induction ds arbitrary: t)
  case Nil
  show ?case by simp
next
  case (Cons d ds)
  let ?t1 = "t\<lparr>messagesQueue := messagesQueue t @ [d]\<rparr>"
  have "http_step (HttpSend d) (t, env) = ((?t1, env), [])"
    using Cons.prems by (simp add: HttpRequest_send_def)
  moreover have "http_run (map HttpSend ds) (?t1, env) =
      ((?t1\<lparr>messagesQueue := messagesQueue ?t1 @ ds\<rparr>, env), [])"
    using Cons.prems by (intro Cons.IH) simp_all
  ultimately show ?case by simp
qed

lemma http_step_queue_prefix:
  "prefix (messagesQueue t) (messagesQueue (fst (fst (http_step c (t, env)))))"
  by (cases c)
    (auto simp: HttpRequest_start_def HttpRequest_send_def HttpRequest_close_def
      startXhrStream_def setHTTPTimeout_def HttpRequestLongPoll_send_def setTimeout_def
      split: prod.splits)

lemma http_run_queue_prefix:
  "prefix (messagesQueue t) (messagesQueue (fst (fst (http_run cs (t, env)))))"
proof (induction cs arbitrary: t env)
  case Nil
  show ?case by simp
next
  case (Cons c cs)
  obtain t1 env1 es where st: "http_step c (t, env) = ((t1, env1), es)"
    by (metis surj_pair)
  have "prefix (messagesQueue t) (messagesQueue t1)"
    using http_step_queue_prefix [of t c env] st by simp
  moreover have "prefix (messagesQueue t1) (messagesQueue (fst (fst (http_run cs (t1, env1)))))"
    by (rule Cons.IH)
  ultimately show ?case using st by (auto split: prod.splits intro: prefix_order.trans)
qed

lemma httpTimeoutCallback_keeps_queue:
  "messagesQueue (fst (httpTimeoutCallback t env)) = messagesQueue t \<and>
   (\<forall>e \<in> set (snd (snd (httpTimeoutCallback t env))). \<exists>u k. e = PollSend u k)"
  by (auto simp: httpTimeoutCallback_def startXhrStream_def setHTTPTimeout_def
      HttpRequestLongPoll_send_def setTimeout_def split: prod.splits option.splits)

lemma start_keeps_queue:
  "messagesQueue (fst (HttpRequest_start i token t env)) = messagesQueue t \<and>
   (\<forall>e \<in> set (snd (snd (HttpRequest_start i token t env))). \<exists>u k. e = PollSend u k)"
  by (auto simp: HttpRequest_start_def startXhrStream_def setHTTPTimeout_def
      HttpRequestLongPoll_send_def setTimeout_def split: prod.splits)

text \<open>
  What holds of the transport after calls that handed the ids \<open>ids\<close> to \<open>start\<close>: a
  non-empty queue needs a falsy id among them, and a transport that is not disconnected
  holds one of them.
\<close>

definition queue_inv :: "js_string list \<Rightarrow> HttpRequest \<Rightarrow> bool" where
  "queue_inv ids t =
     ((messagesQueue t \<noteq> [] \<longrightarrow> (\<exists>i \<in> set ids. \<not> truthy i)) \<and>
      (\<not> disconnected t \<longrightarrow> sessionId t \<in> set ids))"

lemma http_step_queue_inv:
  assumes "queue_inv ids t"
  shows "queue_inv (ids @ started_ids [c]) (fst (fst (http_step c (t, env))))"
  using assms
  by (cases c)
    (auto simp: queue_inv_def started_ids_def HttpRequest_start_def HttpRequest_send_def
      HttpRequest_close_def startXhrStream_def setHTTPTimeout_def HttpRequestLongPoll_send_def
      setTimeout_def split: prod.splits)

lemma started_ids_Cons: "started_ids (c # cs) = started_ids [c] @ started_ids cs"
  by (simp add: started_ids_def)

lemma http_run_queue_inv:
  "queue_inv ids t \<Longrightarrow> queue_inv (ids @ started_ids cs) (fst (fst (http_run cs (t, env))))"
proof (induction cs arbitrary: t env ids)
  case Nil
  then show ?case by (simp add: started_ids_def)
next
  case (Cons c cs)
  obtain t1 env1 es where st: "http_step c (t, env) = ((t1, env1), es)"
    by (metis surj_pair)
  have "queue_inv (ids @ started_ids [c]) t1"
    using http_step_queue_inv [OF Cons.prems, of c env] st by simp
  then have "queue_inv ((ids @ started_ids [c]) @ started_ids cs) (fst (fst (http_run cs (t1, env1))))"
    by (rule Cons.IH)
  then show ?case using st by (auto simp: started_ids_Cons [of c cs] split: prod.splits)
qed

text \<open>
  Claim C9, as the code has it. The transport is created disconnected, and any sequence of
  \<open>send\<close> (and \<open>close\<close>) calls made before \<open>start\<close> leaves it as it was and has no
  effect: nothing is queued, nothing is posted, no event is emitted. \<open>start\<close> stores the
  session id before it clears the flag: in every state reached through \<open>start\<close>, \<open>send\<close>
  and \<open>close\<close>, a transport that is not disconnected holds an id that was given to
  \<open>start\<close>, and the queue is non-empty only if some \<open>start\<close> was given an id that is
  empty or \<open>undefined\<close>. The enqueue branch of \<open>send\<close> is out of reach before \<open>start\<close>
  and while every id given to \<open>start\<close> was non-empty, and not otherwise.
\<close>

theorem send_before_start_is_dropped:
  "disconnected (newHttpRequest secure host port path key) \<and>
   ((\<forall>c \<in> set cs. \<not> is_start c) \<longrightarrow>
      http_run cs (newHttpRequest secure host port path key, env) =
        ((newHttpRequest secure host port path key, env), [])) \<and>
   (\<not> disconnected (fst (fst (http_run cs' (newHttpRequest secure host port path key, env)))) \<longrightarrow>
      sessionId (fst (fst (http_run cs' (newHttpRequest secure host port path key, env))))
        \<in> set (started_ids cs')) \<and>
   (messagesQueue (fst (fst (http_run cs' (newHttpRequest secure host port path key, env)))) \<noteq> [] \<longrightarrow>
      (\<exists>i \<in> set (started_ids cs'). \<not> truthy i))"
proof -
  let ?new = "newHttpRequest secure host port path key"
  have d: "disconnected ?new" by (simp add: newHttpRequest_def)
  have "queue_inv [] ?new" by (simp add: queue_inv_def newHttpRequest_def)
  then have "queue_inv ([] @ started_ids cs') (fst (fst (http_run cs' (?new, env))))"
    by (rule http_run_queue_inv)
  then have q: "queue_inv (started_ids cs') (fst (fst (http_run cs' (?new, env))))" by simp
  show ?thesis
    using d http_run_no_start_disconnected [OF d, of cs env] q
    unfolding queue_inv_def by blast
qed

theorem send_before_start_is_dropped_witness:
  "http_run [HttpSend \<lparr>data_type = Some ''OFFER'', data_payload = ''x''\<rparr>, HttpClose,
             HttpSend \<lparr>data_type = None, data_payload = ''y''\<rparr>]
     (newHttpRequest False ''h'' ''9000'' ''/'' ''peerjs'', noTimers) =
     ((newHttpRequest False ''h'' ''9000'' ''/'' ''peerjs'', noTimers), []) \<and>
   sessionId (fst (fst (http_run [HttpStart (Some ''id1'') (Some ''tok'')]
     (newHttpRequest False ''h'' ''9000'' ''/'' ''peerjs'', noTimers)))) = Some ''id1''"
proof -
  let ?cs = "[HttpSend \<lparr>data_type = Some ''OFFER'', data_payload = ''x''\<rparr>, HttpClose,
             HttpSend \<lparr>data_type = None, data_payload = ''y''\<rparr>]"
  let ?cs' = "[HttpStart (Some ''id1'') (Some ''tok'')]"
  let ?new = "newHttpRequest False ''h'' ''9000'' ''/'' ''peerjs''"
  have a: "\<forall>c \<in> set ?cs. \<not> is_start c" by (simp add: is_start_def)
  have b: "http_run ?cs (?new, noTimers) = ((?new, noTimers), [])"
    using send_before_start_is_dropped [of False "''h''" "''9000''" "''/''" "''peerjs''" ?cs noTimers ?cs'] a
    by blast
  have c: "\<not> disconnected (fst (fst (http_run ?cs' (?new, noTimers))))"
    by (simp add: newHttpRequest_def HttpRequest_start_def startXhrStream_def setHTTPTimeout_def
        HttpRequestLongPoll_send_def setTimeout_def noTimers_def)
  have e: "set (started_ids ?cs') = {Some ''id1''}" by (simp add: started_ids_def)
  have f: "sessionId (fst (fst (http_run ?cs' (?new, noTimers)))) \<in> set (started_ids ?cs')"
    using send_before_start_is_dropped [of False "''h''" "''9000''" "''/''" "''peerjs''" ?cs noTimers ?cs'] c
    by blast
  show ?thesis using b f e by blast
qed

text \<open>
  The enqueue branch is not out of reach through the public interface: \<open>start\<close> does not
  examine the id it stores, so after a \<open>start\<close> whose id is the empty string or
  \<open>undefined\<close> the transport is not disconnected, \<open>!this._id\<close> holds, and \<open>send\<close>
  pushes the data to the queue and transmits nothing.
\<close>

theorem send_reaches_queue_after_start_with_empty_id:
  "disconnected (newHttpRequest False ''h'' ''9000'' ''/'' ''peerjs'') \<and>
   \<not> disconnected (fst (fst (http_run [HttpStart (Some []) (Some ''tok'')]
     (newHttpRequest False ''h'' ''9000'' ''/'' ''peerjs'', noTimers)))) \<and>
   messagesQueue (fst (fst (http_run
     [HttpStart (Some []) (Some ''tok''),
      HttpSend \<lparr>data_type = Some ''OFFER'', data_payload = ''x''\<rparr>]
     (newHttpRequest False ''h'' ''9000'' ''/'' ''peerjs'', noTimers)))) =
     [\<lparr>data_type = Some ''OFFER'', data_payload = ''x''\<rparr>] \<and>
   snd (http_run
     [HttpStart (Some []) (Some ''tok''),
      HttpSend \<lparr>data_type = Some ''OFFER'', data_payload = ''x''\<rparr>]
     (newHttpRequest False ''h'' ''9000'' ''/'' ''peerjs'', noTimers)) =
     snd (http_run [HttpStart (Some []) (Some ''tok'')]
       (newHttpRequest False ''h'' ''9000'' ''/'' ''peerjs'', noTimers)) \<and>
   messagesQueue (fst (fst (http_run
     [HttpStart None (Some ''tok''),
      HttpSend \<lparr>data_type = Some ''OFFER'', data_payload = ''x''\<rparr>]
     (newHttpRequest False ''h'' ''9000'' ''/'' ''peerjs'', noTimers)))) =
     [\<lparr>data_type = Some ''OFFER'', data_payload = ''x''\<rparr>]"
  by (simp add: newHttpRequest_def HttpRequest_start_def HttpRequest_send_def
      startXhrStream_def setHTTPTimeout_def HttpRequestLongPoll_send_def setTimeout_def
      noTimers_def truthy_def newHttpRequestLongPoll_def)

text \<open>
  Claim C3, as the code has it. While the transport is not disconnected and holds no
  (non-empty) session id, a sequence of \<open>send\<close> calls appends the data to the queue in
  call order and transmits nothing. While it is disconnected, as it is before \<open>start\<close>,
  \<open>send\<close> does nothing. No call ever removes an item from the queue: the queue before
  any sequence of calls is a prefix of the queue after it, and \<open>start\<close> and the idle
  timeout leave the queue as it is and post none of it (their only effect is a poll
  request).
\<close>

theorem send_queue_when_connected_without_id:
  "(\<not> disconnected t \<and> \<not> truthy (sessionId t) \<longrightarrow>
      http_run (map HttpSend ds) (t, env) =
        ((t\<lparr>messagesQueue := messagesQueue t @ ds\<rparr>, env), [])) \<and>
   (disconnected t \<longrightarrow> http_run (map HttpSend ds) (t, env) = ((t, env), [])) \<and>
   prefix (messagesQueue t) (messagesQueue (fst (fst (http_run cs (t, env))))) \<and>
   messagesQueue (fst (HttpRequest_start i token t env)) = messagesQueue t \<and>
   (\<forall>e \<in> set (snd (snd (HttpRequest_start i token t env))). \<exists>u k. e = PollSend u k) \<and>
   messagesQueue (fst (httpTimeoutCallback t env)) = messagesQueue t \<and>
   (\<forall>e \<in> set (snd (snd (httpTimeoutCallback t env))). \<exists>u k. e = PollSend u k)"
proof (intro conjI impI)
  assume "\<not> disconnected t \<and> \<not> truthy (sessionId t)"
  then show "http_run (map HttpSend ds) (t, env) =
        ((t\<lparr>messagesQueue := messagesQueue t @ ds\<rparr>, env), [])"
    using sends_enqueue by blast
next
  assume d: "disconnected t"
  have "\<forall>c \<in> set (map HttpSend ds). \<not> is_start c" by (auto simp: is_start_def)
  with d show "http_run (map HttpSend ds) (t, env) = ((t, env), [])"
    by (rule http_run_no_start_disconnected)
next
  show "prefix (messagesQueue t) (messagesQueue (fst (fst (http_run cs (t, env)))))"
    by (rule http_run_queue_prefix)
next
  show "messagesQueue (fst (HttpRequest_start i token t env)) = messagesQueue t"
    using start_keeps_queue by blast
next
  show "\<forall>e \<in> set (snd (snd (HttpRequest_start i token t env))). \<exists>u k. e = PollSend u k"
    using start_keeps_queue by blast
next
  show "messagesQueue (fst (httpTimeoutCallback t env)) = messagesQueue t"
    using httpTimeoutCallback_keeps_queue by blast
next
  show "\<forall>e \<in> set (snd (snd (httpTimeoutCallback t env))). \<exists>u k. e = PollSend u k"
    using httpTimeoutCallback_keeps_queue by blast
qed

text \<open>A transport that holds no usable session id although it is started: the id is empty.\<close>

definition started_without_id :: HttpRequest where
  "started_without_id =
     fst (HttpRequest_start (Some []) (Some ''tok'')
            (newHttpRequest False ''h'' ''9000'' ''/'' ''peerjs'') noTimers)"

theorem send_queue_when_connected_without_id_witness:
  "\<not> disconnected started_without_id \<and> \<not> truthy (sessionId started_without_id) \<and>
   messagesQueue (fst (fst (http_run
     (map HttpSend [\<lparr>data_type = Some ''OFFER'', data_payload = ''x''\<rparr>,
                    \<lparr>data_type = Some ''ANSWER'', data_payload = ''y''\<rparr>])
     (started_without_id, noTimers)))) =
     [\<lparr>data_type = Some ''OFFER'', data_payload = ''x''\<rparr>,
      \<lparr>data_type = Some ''ANSWER'', data_payload = ''y''\<rparr>] \<and>
   snd (http_run
     (map HttpSend [\<lparr>data_type = Some ''OFFER'', data_payload = ''x''\<rparr>,
                    \<lparr>data_type = Some ''ANSWER'', data_payload = ''y''\<rparr>])
     (started_without_id, noTimers)) = [] \<and>
   http_run (map HttpSend [\<lparr>data_type = Some ''OFFER'', data_payload = ''x''\<rparr>])
     (newHttpRequest False ''h'' ''9000'' ''/'' ''peerjs'', noTimers) =
     ((newHttpRequest False ''h'' ''9000'' ''/'' ''peerjs'', noTimers), [])"
proof -
  let ?ds = "[\<lparr>data_type = Some ''OFFER'', data_payload = ''x''\<rparr>,
              \<lparr>data_type = Some ''ANSWER'', data_payload = ''y''\<rparr>]"
  let ?new = "newHttpRequest False ''h'' ''9000'' ''/'' ''peerjs''"
  have a: "\<not> disconnected started_without_id \<and> \<not> truthy (sessionId started_without_id)"
    by (simp add: started_without_id_def newHttpRequest_def HttpRequest_start_def
        startXhrStream_def setHTTPTimeout_def HttpRequestLongPoll_send_def setTimeout_def
        noTimers_def truthy_def)
  have q: "messagesQueue started_without_id = []"
    by (simp add: started_without_id_def newHttpRequest_def HttpRequest_start_def
        startXhrStream_def setHTTPTimeout_def HttpRequestLongPoll_send_def setTimeout_def
        noTimers_def)
  have b: "http_run (map HttpSend ?ds) (started_without_id, noTimers) =
      ((started_without_id\<lparr>messagesQueue := messagesQueue started_without_id @ ?ds\<rparr>, noTimers), [])"
    using send_queue_when_connected_without_id [of started_without_id ?ds noTimers] a by blast
  have c: "disconnected ?new" by (simp add: newHttpRequest_def)
  have d: "http_run (map HttpSend [\<lparr>data_type = Some ''OFFER'', data_payload = ''x''\<rparr>]) (?new, noTimers) =
      ((?new, noTimers), [])"
    using send_queue_when_connected_without_id
      [of ?new "[\<lparr>data_type = Some ''OFFER'', data_payload = ''x''\<rparr>]" noTimers] c by blast
  have e: "messagesQueue (fst (fst (http_run (map HttpSend ?ds) (started_without_id, noTimers)))) = ?ds \<and>
      snd (http_run (map HttpSend ?ds) (started_without_id, noTimers)) = []"
    unfolding b by (simp add: q)
  show ?thesis using a d e by blast
qed

text \<open>
  The claim fails for calls made before \<open>start\<close>: no session id is assigned, and the data
  sent is not appended to the queue.
\<close>

theorem send_before_start_not_queued:
  "sessionId (newHttpRequest False ''h'' ''9000'' ''/'' ''peerjs'') = None \<and>
   HttpRequest_send \<lparr>data_type = Some ''OFFER'', data_payload = ''x''\<rparr>
     (newHttpRequest False ''h'' ''9000'' ''/'' ''peerjs'') =
     (newHttpRequest False ''h'' ''9000'' ''/'' ''peerjs'', []) \<and>
   messagesQueue (fst (HttpRequest_send \<lparr>data_type = Some ''OFFER'', data_payload = ''x''\<rparr>
     (newHttpRequest False ''h'' ''9000'' ''/'' ''peerjs''))) = []"
  by (simp add: newHttpRequest_def HttpRequest_send_def)

section \<open>ServerConnection: the channel with fallback\<close>

text \<open>
  The class \<open>ServerConnection\<close> wraps a primary \<open>Socket\<close> and an \<open>HttpRequest\<close>
  transport and replaces the \<open>emit\<close> of both by its own intercepting functions. The
  class \<open>Socket\<close> is not part of the sources: the calls made to it are recorded as
  outputs, and the events it emits arrive as inputs, between the operations of the channel
  and not during a call made to it. The transport is the one modelled
  above, held in the field \<open>sc_httpRequest\<close> (\<open>_httpRequest\<close> in the source); its
  \<open>emit\<close> calls go through the intercepting function. \<open>_currentConnection\<close> refers to
  one of the two wrapped objects, or to none.
\<close>

datatype connection = WebSocket | HttpRequestConnection

record ServerConnection =
  serverId :: js_string
  serverToken :: js_string
  sc_httpRequest :: HttpRequest
  currentConnection :: "connection option"
  socketOpenTimeout :: "nat option"

text \<open>
  What the channel does to the outside: \<open>Forward\<close> is a call of the channel's own
  \<open>emit\<close>, which reaches its listeners; the calls to the socket; and the effects of the
  wrapped transport other than its \<open>emit\<close> calls.
\<close>

datatype sc_output =
  Forward event
| SocketStart js_string js_string
| SocketSend data
| SocketClose
| Http effect

definition newServerConnection ::
  "bool \<Rightarrow> string \<Rightarrow> string \<Rightarrow> string \<Rightarrow> string \<Rightarrow> ServerConnection" where
  "newServerConnection secure host port path key =
     \<lparr>serverId = None, serverToken = None,
      sc_httpRequest = newHttpRequest secure host port path key,
      currentConnection = None, socketOpenTimeout = None\<rparr>"

text \<open>The test \<open>if (this._socketOpenTimeout)\<close> on a field that is \<open>null\<close> or a timer handle.\<close>

definition handle_truthy :: "nat option \<Rightarrow> bool" where
  "handle_truthy h = (case h of None \<Rightarrow> False | Some k \<Rightarrow> k \<noteq> 0)"

definition interceptedHttpRequestEmit :: "event \<Rightarrow> ServerConnection \<Rightarrow> sc_output list" where
  "interceptedHttpRequestEmit ev this =
     (if currentConnection this = Some HttpRequestConnection then [Forward ev] else [])"

text \<open>
  The effects of a call into the wrapped transport, seen from the channel: an \<open>emit\<close> of
  the transport runs the intercepting function in the state the channel is in during the
  call.
\<close>

definition http_outputs :: "ServerConnection \<Rightarrow> effect list \<Rightarrow> sc_output list" where
  "http_outputs this es =
     concat (map (\<lambda>e. case e of Emit ev \<Rightarrow> interceptedHttpRequestEmit ev this | _ \<Rightarrow> [Http e]) es)"

definition stopSocketOpenTimeout :: "ServerConnection \<Rightarrow> timers \<Rightarrow> ServerConnection \<times> timers" where
  "stopSocketOpenTimeout this env =
     (this\<lparr>socketOpenTimeout := None\<rparr>, clearTimeout_opt (socketOpenTimeout this) env)"

definition startSocketOpenTimeout :: "ServerConnection \<Rightarrow> timers \<Rightarrow> ServerConnection \<times> timers" where
  "startSocketOpenTimeout this env =
     (case stopSocketOpenTimeout this env of
        (this1, env1) \<Rightarrow>
          (case setTimeout SocketOpenTimeout 5000 env1 of
             (h, env2) \<Rightarrow> (this1\<lparr>socketOpenTimeout := Some h\<rparr>, env2)))"

text \<open>
  \<open>_startSocket\<close> and \<open>_startHttp\<close>: the current connection is set to \<open>null\<close> while
  the other transport is closed, then to the transport that is started.
\<close>

definition startSocket :: "ServerConnection \<Rightarrow> timers \<Rightarrow> ServerConnection \<times> timers \<times> sc_output list" where
  "startSocket this env =
     (let this1 = this\<lparr>currentConnection := None\<rparr> in
      case HttpRequest_close (sc_httpRequest this1) env of
        (http', env1, es) \<Rightarrow>
          (let out1 = http_outputs this1 es;
               this2 = this1\<lparr>sc_httpRequest := http', currentConnection := Some WebSocket\<rparr>
           in case startSocketOpenTimeout this2 env1 of
                (this3, env2) \<Rightarrow>
                  (this3, env2, out1 @ [SocketStart (serverId this3) (serverToken this3)])))"

definition startHttp :: "ServerConnection \<Rightarrow> timers \<Rightarrow> ServerConnection \<times> timers \<times> sc_output list" where
  "startHttp this env =
     (let this0 = this\<lparr>currentConnection := None\<rparr>;
          this1 = this0\<lparr>currentConnection := Some HttpRequestConnection\<rparr>
      in case stopSocketOpenTimeout this1 env of
        (this2, env1) \<Rightarrow>
          (case HttpRequest_start (serverId this2) (serverToken this2) (sc_httpRequest this2) env1 of
             (http', env2, es) \<Rightarrow>
               (this2\<lparr>sc_httpRequest := http'\<rparr>, env2, SocketClose # http_outputs this2 es)))"

definition ServerConnection_start ::
  "js_string \<Rightarrow> js_string \<Rightarrow> ServerConnection \<Rightarrow> timers \<Rightarrow> ServerConnection \<times> timers \<times> sc_output list" where
  "ServerConnection_start i token this env =
     startSocket (this\<lparr>serverId := i, serverToken := token\<rparr>) env"

definition ServerConnection_send :: "data \<Rightarrow> ServerConnection \<Rightarrow> ServerConnection \<times> sc_output list" where
  "ServerConnection_send d this =
     (case currentConnection this of
        None \<Rightarrow> (this, [])
      | Some WebSocket \<Rightarrow> (this, [SocketSend d])
      | Some HttpRequestConnection \<Rightarrow>
          (case HttpRequest_send d (sc_httpRequest this) of
             (http', es) \<Rightarrow> (this\<lparr>sc_httpRequest := http'\<rparr>, http_outputs this es)))"

definition ServerConnection_close ::
  "ServerConnection \<Rightarrow> timers \<Rightarrow> ServerConnection \<times> timers \<times> sc_output list" where
  "ServerConnection_close this env =
     (case stopSocketOpenTimeout this env of
        (this1, env1) \<Rightarrow>
          (case currentConnection this1 of
             None \<Rightarrow> (this1\<lparr>currentConnection := None\<rparr>, env1, [])
           | Some WebSocket \<Rightarrow> (this1\<lparr>currentConnection := None\<rparr>, env1, [SocketClose])
           | Some HttpRequestConnection \<Rightarrow>
               (case HttpRequest_close (sc_httpRequest this1) env1 of
                  (http', env2, es) \<Rightarrow>
                    (this1\<lparr>sc_httpRequest := http', currentConnection := None\<rparr>, env2,
                     http_outputs this1 es))))"

text \<open>
  \<open>_interceptedSocketEmit\<close>; \<open>forwardSocket\<close> is its last line. A disconnect of the
  socket while the open timeout is pending starts the fallback and returns without
  forwarding.
\<close>

definition forwardSocket :: "event \<Rightarrow> ServerConnection \<Rightarrow> sc_output list" where
  "forwardSocket ev this = (if currentConnection this = Some WebSocket then [Forward ev] else [])"

definition interceptedSocketEmit ::
  "event \<Rightarrow> ServerConnection \<Rightarrow> timers \<Rightarrow> ServerConnection \<times> timers \<times> sc_output list" where
  "interceptedSocketEmit ev this env =
     (if handle_truthy (socketOpenTimeout this) then
        (case ev of
           Disconnected \<Rightarrow> startHttp this env
         | Message m \<Rightarrow>
             (case stopSocketOpenTimeout this env of
                (this1, env1) \<Rightarrow> (this1, env1, forwardSocket ev this1))
         | _ \<Rightarrow> (this, env, forwardSocket ev this))
      else (this, env, forwardSocket ev this))"

text \<open>
  The open timeout of the socket fires: the browser takes the callback from the pending
  ones and runs \<open>_startHttp\<close>. A handle that is not pending with this callback does
  nothing here.
\<close>

definition socketOpenTimeoutFires ::
  "nat \<Rightarrow> ServerConnection \<Rightarrow> timers \<Rightarrow> ServerConnection \<times> timers \<times> sc_output list" where
  "socketOpenTimeoutFires h this env =
     (if is_pending h SocketOpenTimeout env then startHttp this (clearTimeout h env)
      else (this, env, []))"

text \<open>
  What can happen to a channel: a call of \<open>start\<close>, \<open>send\<close> or \<open>close\<close>, an event
  emitted by the socket or by the fallback transport, a timer that fires. \<open>run\<close> lets a
  list of these happen one after the other and collects the outputs; \<open>switches\<close> counts
  how often the current connection changes to the fallback transport on the way.
\<close>

datatype action =
  ChannelStart js_string js_string
| ChannelSend data
| ChannelClose
| SocketEmits event
| HttpEmits event
| TimerFires nat

fun step :: "action \<Rightarrow> ServerConnection \<times> timers \<Rightarrow> (ServerConnection \<times> timers) \<times> sc_output list" where
  "step (ChannelStart i token) (this, env) =
     (case ServerConnection_start i token this env of (this', env', out) \<Rightarrow> ((this', env'), out))"
| "step (ChannelSend d) (this, env) =
     (case ServerConnection_send d this of (this', out) \<Rightarrow> ((this', env), out))"
| "step ChannelClose (this, env) =
     (case ServerConnection_close this env of (this', env', out) \<Rightarrow> ((this', env'), out))"
| "step (SocketEmits ev) (this, env) =
     (case interceptedSocketEmit ev this env of (this', env', out) \<Rightarrow> ((this', env'), out))"
| "step (HttpEmits ev) (this, env) = ((this, env), interceptedHttpRequestEmit ev this)"
| "step (TimerFires h) (this, env) =
     (case socketOpenTimeoutFires h this env of (this', env', out) \<Rightarrow> ((this', env'), out))"

fun run :: "action list \<Rightarrow> ServerConnection \<times> timers \<Rightarrow> (ServerConnection \<times> timers) \<times> sc_output list" where
  "run [] s = (s, [])"
| "run (a # as) s =
     (case step a s of
        (s1, out) \<Rightarrow> (case run as s1 of (s2, out') \<Rightarrow> (s2, out @ out')))"

fun switches :: "action list \<Rightarrow> ServerConnection \<times> timers \<Rightarrow> nat" where
  "switches [] s = 0"
| "switches (a # as) s =
     (if currentConnection (fst s) \<noteq> Some HttpRequestConnection \<and>
         currentConnection (fst (fst (step a s))) = Some HttpRequestConnection
      then 1 else 0) + switches as (fst (step a s))"

subsection \<open>An invariant of the channel\<close>

text \<open>
  While the field \<open>_socketOpenTimeout\<close> holds a handle the socket is the current
  connection, and a pending open timeout of the socket is the one the field holds.
\<close>

definition chan_inv :: "ServerConnection \<times> timers \<Rightarrow> bool" where
  "chan_inv s =
     ((socketOpenTimeout (fst s) \<noteq> None \<longrightarrow> currentConnection (fst s) = Some WebSocket) \<and>
      (\<forall>e \<in> set (pending (snd s)).
         fst (snd e) = SocketOpenTimeout \<longrightarrow> socketOpenTimeout (fst s) = Some (fst e)))"

lemma set_pending_clearTimeout [simp]:
  "set (pending (clearTimeout h env)) = {e \<in> set (pending env). fst e \<noteq> h}"
  by (auto simp: clearTimeout_def)

lemma set_pending_clearTimeout_opt:
  "set (pending (clearTimeout_opt h env)) \<subseteq> set (pending env)"
  by (auto simp: clearTimeout_opt_def split: option.splits)

lemma pending_HttpRequest_close:
  "set (pending (fst (snd (HttpRequest_close t env)))) \<subseteq> set (pending env)"
  using set_pending_clearTimeout_opt by (auto simp: HttpRequest_close_def)

lemma pending_HttpRequest_start:
  "e \<in> set (pending (fst (snd (HttpRequest_start i k t env)))) \<Longrightarrow>
   e \<in> set (pending env) \<or> fst (snd e) \<noteq> SocketOpenTimeout"
  by (auto simp: HttpRequest_start_def startXhrStream_def setHTTPTimeout_def
      HttpRequestLongPoll_send_def setTimeout_def split: prod.splits if_splits)

lemma stopSocketOpenTimeout_inv:
  assumes "chan_inv (this, env)"
  shows "socketOpenTimeout (fst (stopSocketOpenTimeout this env)) = None"
    and "\<forall>e \<in> set (pending (snd (stopSocketOpenTimeout this env))). fst (snd e) \<noteq> SocketOpenTimeout"
    and "set (pending (snd (stopSocketOpenTimeout this env))) \<subseteq> set (pending env)"
    and "currentConnection (fst (stopSocketOpenTimeout this env)) = currentConnection this"
    and "sc_httpRequest (fst (stopSocketOpenTimeout this env)) = sc_httpRequest this"
    and "serverId (fst (stopSocketOpenTimeout this env)) = serverId this"
    and "serverToken (fst (stopSocketOpenTimeout this env)) = serverToken this"
  using assms
  by (auto simp: chan_inv_def stopSocketOpenTimeout_def clearTimeout_opt_def split: option.splits)

lemma startHttp_result:
  assumes "\<forall>e \<in> set (pending env). fst (snd e) = SocketOpenTimeout \<longrightarrow> socketOpenTimeout this = Some (fst e)"
  shows "currentConnection (fst (startHttp this env)) = Some HttpRequestConnection"
    and "socketOpenTimeout (fst (startHttp this env)) = None"
    and "\<forall>e \<in> set (pending (fst (snd (startHttp this env)))). fst (snd e) \<noteq> SocketOpenTimeout"
proof -
  let ?this1 = "this\<lparr>currentConnection := Some HttpRequestConnection\<rparr>"
  obtain this2 env1 where st: "stopSocketOpenTimeout ?this1 env = (this2, env1)"
    by (metis surj_pair)
  obtain http' env2 es where hs:
    "HttpRequest_start (serverId this2) (serverToken this2) (sc_httpRequest this2) env1 = (http', env2, es)"
    by (metis surj_pair)
  have res: "startHttp this env = (this2\<lparr>sc_httpRequest := http'\<rparr>, env2, SocketClose # http_outputs this2 es)"
    by (simp add: startHttp_def Let_def st hs)
  have a: "socketOpenTimeout this2 = None"
    and b: "\<forall>e \<in> set (pending env1). fst (snd e) \<noteq> SocketOpenTimeout"
    and c: "currentConnection this2 = Some HttpRequestConnection"
    using assms st by (auto simp: stopSocketOpenTimeout_def clearTimeout_opt_def split: option.splits)
  have d: "\<forall>e \<in> set (pending env2). fst (snd e) \<noteq> SocketOpenTimeout"
    using b pending_HttpRequest_start [of _ "serverId this2" "serverToken this2" "sc_httpRequest this2" env1] hs
    by auto
  show "currentConnection (fst (startHttp this env)) = Some HttpRequestConnection"
    by (simp add: res c)
  show "socketOpenTimeout (fst (startHttp this env)) = None"
    by (simp add: res a)
  show "\<forall>e \<in> set (pending (fst (snd (startHttp this env)))). fst (snd e) \<noteq> SocketOpenTimeout"
    using d by (simp add: res)
qed

lemma startHttp_inv:
  assumes "chan_inv (this, env)"
  shows "chan_inv (fst (startHttp this env), fst (snd (startHttp this env)))"
proof -
  have "\<forall>e \<in> set (pending env). fst (snd e) = SocketOpenTimeout \<longrightarrow> socketOpenTimeout this = Some (fst e)"
    using assms by (simp add: chan_inv_def)
  from startHttp_result [OF this] show ?thesis by (auto simp: chan_inv_def)
qed

lemma startSocket_result:
  assumes "chan_inv (this, env)"
  shows "currentConnection (fst (startSocket this env)) = Some WebSocket"
    and "\<exists>h. socketOpenTimeout (fst (startSocket this env)) = Some h \<and>
           (h, SocketOpenTimeout, 5000) \<in> set (pending (fst (snd (startSocket this env)))) \<and>
           (\<forall>e \<in> set (pending (fst (snd (startSocket this env)))).
              fst (snd e) = SocketOpenTimeout \<longrightarrow> fst e = h)"
proof -
  let ?this1 = "this\<lparr>currentConnection := None\<rparr>"
  obtain http' env1 es where cl: "HttpRequest_close (sc_httpRequest this) env = (http', env1, es)"
    by (metis surj_pair)
  let ?this2 = "this\<lparr>sc_httpRequest := http', currentConnection := Some WebSocket\<rparr>"
  obtain this3 env2 where so: "startSocketOpenTimeout ?this2 env1 = (this3, env2)"
    by (metis surj_pair)
  have res: "startSocket this env =
      (this3, env2, http_outputs ?this1 es @ [SocketStart (serverId this3) (serverToken this3)])"
    by (simp add: startSocket_def Let_def cl so)
  have sub: "set (pending env1) \<subseteq> set (pending env)"
    using pending_HttpRequest_close [of "sc_httpRequest this" env] cl by simp
  have inv2: "\<forall>e \<in> set (pending env1).
      fst (snd e) = SocketOpenTimeout \<longrightarrow> socketOpenTimeout ?this2 = Some (fst e)"
    using assms sub by (auto simp: chan_inv_def)
  have "currentConnection this3 = Some WebSocket \<and>
      (\<exists>h. socketOpenTimeout this3 = Some h \<and> (h, SocketOpenTimeout, 5000) \<in> set (pending env2) \<and>
         (\<forall>e \<in> set (pending env2). fst (snd e) = SocketOpenTimeout \<longrightarrow> fst e = h))"
    using inv2 so
    by (auto simp: startSocketOpenTimeout_def stopSocketOpenTimeout_def setTimeout_def
        clearTimeout_opt_def split: option.splits prod.splits)
  then show "currentConnection (fst (startSocket this env)) = Some WebSocket"
    and "\<exists>h. socketOpenTimeout (fst (startSocket this env)) = Some h \<and>
           (h, SocketOpenTimeout, 5000) \<in> set (pending (fst (snd (startSocket this env)))) \<and>
           (\<forall>e \<in> set (pending (fst (snd (startSocket this env)))).
              fst (snd e) = SocketOpenTimeout \<longrightarrow> fst e = h)"
    by (simp_all add: res)
qed

lemma startSocket_inv:
  assumes "chan_inv (this, env)"
  shows "chan_inv (fst (startSocket this env), fst (snd (startSocket this env)))"
  using startSocket_result [OF assms] by (auto simp: chan_inv_def)

lemma ServerConnection_close_result:
  assumes "chan_inv (this, env)"
  shows "currentConnection (fst (ServerConnection_close this env)) = None"
    and "socketOpenTimeout (fst (ServerConnection_close this env)) = None"
    and "\<forall>e \<in> set (pending (fst (snd (ServerConnection_close this env)))). fst (snd e) \<noteq> SocketOpenTimeout"
proof -
  obtain this1 env1 where st: "stopSocketOpenTimeout this env = (this1, env1)"
    by (metis surj_pair)
  have a: "socketOpenTimeout this1 = None"
    and b: "\<forall>e \<in> set (pending env1). fst (snd e) \<noteq> SocketOpenTimeout"
    using stopSocketOpenTimeout_inv(1,2) [OF assms] st by simp_all
  have c: "\<forall>e \<in> set (pending (fst (snd (HttpRequest_close (sc_httpRequest this1) env1)))).
      fst (snd e) \<noteq> SocketOpenTimeout"
    using b pending_HttpRequest_close [of "sc_httpRequest this1" env1] by blast
  show "currentConnection (fst (ServerConnection_close this env)) = None"
    by (simp add: ServerConnection_close_def st split: option.splits connection.splits prod.splits)
  show "socketOpenTimeout (fst (ServerConnection_close this env)) = None"
    using a by (simp add: ServerConnection_close_def st split: option.splits connection.splits prod.splits)
  show "\<forall>e \<in> set (pending (fst (snd (ServerConnection_close this env)))). fst (snd e) \<noteq> SocketOpenTimeout"
    using b c by (auto simp: ServerConnection_close_def st split: option.splits connection.splits prod.splits)
qed

lemma ServerConnection_send_fields:
  "currentConnection (fst (ServerConnection_send d this)) = currentConnection this \<and>
   socketOpenTimeout (fst (ServerConnection_send d this)) = socketOpenTimeout this"
  by (auto simp: ServerConnection_send_def split: option.splits connection.splits prod.splits)

lemma fst_run_Cons: "fst (run (a # as) s) = fst (run as (fst (step a s)))"
  by (simp split: prod.splits)

lemma fst_step:
  "fst (step (ChannelStart i token) (this, env)) =
     (fst (ServerConnection_start i token this env), fst (snd (ServerConnection_start i token this env)))"
  "fst (step (ChannelSend d) (this, env)) = (fst (ServerConnection_send d this), env)"
  "fst (step ChannelClose (this, env)) =
     (fst (ServerConnection_close this env), fst (snd (ServerConnection_close this env)))"
  "fst (step (SocketEmits ev) (this, env)) =
     (fst (interceptedSocketEmit ev this env), fst (snd (interceptedSocketEmit ev this env)))"
  "fst (step (HttpEmits ev) (this, env)) = (this, env)"
  "fst (step (TimerFires h) (this, env)) =
     (fst (socketOpenTimeoutFires h this env), fst (snd (socketOpenTimeoutFires h this env)))"
  by (simp_all split: prod.splits)

lemma snd_step:
  "snd (step (ChannelStart i token) (this, env)) = snd (snd (ServerConnection_start i token this env))"
  "snd (step (ChannelSend d) (this, env)) = snd (ServerConnection_send d this)"
  "snd (step ChannelClose (this, env)) = snd (snd (ServerConnection_close this env))"
  "snd (step (SocketEmits ev) (this, env)) = snd (snd (interceptedSocketEmit ev this env))"
  "snd (step (HttpEmits ev) (this, env)) = interceptedHttpRequestEmit ev this"
  "snd (step (TimerFires h) (this, env)) = snd (snd (socketOpenTimeoutFires h this env))"
  by (simp_all split: prod.splits)

declare step.simps [simp del]

lemma step_inv:
  assumes "chan_inv s"
  shows "chan_inv (fst (step a s))"
proof -
  obtain this env where s: "s = (this, env)" by (cases s)
  have inv: "chan_inv (this, env)" using assms s by simp
  show ?thesis
  proof (cases a)
    case (ChannelStart i token)
    have "chan_inv (this\<lparr>serverId := i, serverToken := token\<rparr>, env)"
      using inv by (simp add: chan_inv_def)
    from startSocket_inv [OF this] show ?thesis
      by (simp add: s ChannelStart fst_step ServerConnection_start_def)
  next
    case (ChannelSend d)
    show ?thesis
      using inv ServerConnection_send_fields [of d this]
      by (simp add: s ChannelSend fst_step chan_inv_def)
  next
    case ChannelClose
    show ?thesis
      using ServerConnection_close_result [OF inv]
      by (simp add: s ChannelClose fst_step chan_inv_def)
  next
    case (SocketEmits ev)
    show ?thesis
    proof (cases "handle_truthy (socketOpenTimeout this)")
      case False
      then show ?thesis using inv by (simp add: s SocketEmits fst_step interceptedSocketEmit_def)
    next
      case True
      show ?thesis
      proof (cases ev)
        case Disconnected
        then show ?thesis
          using True startHttp_inv [OF inv]
          by (simp add: s SocketEmits fst_step interceptedSocketEmit_def)
      next
        case (Message m)
        then show ?thesis
          using True stopSocketOpenTimeout_inv [OF inv]
          by (auto simp: s SocketEmits fst_step interceptedSocketEmit_def chan_inv_def split: prod.splits)
      next
        case (Error x)
        then show ?thesis using True inv by (simp add: s SocketEmits fst_step interceptedSocketEmit_def)
      next
        case (OtherEvent x)
        then show ?thesis using True inv by (simp add: s SocketEmits fst_step interceptedSocketEmit_def)
      qed
    qed
  next
    case (HttpEmits ev)
    then show ?thesis using inv by (simp add: s fst_step)
  next
    case (TimerFires h)
    show ?thesis
    proof (cases "is_pending h SocketOpenTimeout env")
      case False
      then show ?thesis using inv by (simp add: s TimerFires fst_step socketOpenTimeoutFires_def)
    next
      case True
      have "\<forall>e \<in> set (pending (clearTimeout h env)).
          fst (snd e) = SocketOpenTimeout \<longrightarrow> socketOpenTimeout this = Some (fst e)"
        using inv by (auto simp: chan_inv_def)
      from startHttp_result [OF this] True show ?thesis
        by (simp add: s TimerFires fst_step socketOpenTimeoutFires_def chan_inv_def)
    qed
  qed
qed

lemma run_inv: "chan_inv s \<Longrightarrow> chan_inv (fst (run as s))"
proof (induction as arbitrary: s)
  case Nil
  then show ?case by simp
next
  case (Cons a as)
  have "chan_inv (fst (run as (fst (step a s))))"
    by (rule Cons.IH) (rule step_inv [OF Cons.prems])
  then show ?case by (simp only: fst_run_Cons)
qed

lemma init_inv: "chan_inv (newServerConnection secure host port path key, noTimers)"
  by (simp add: chan_inv_def newServerConnection_def noTimers_def)

lemma http_outputs_start_no_forward:
  "Forward e \<notin> set (http_outputs this (snd (snd (HttpRequest_start i token t env))))"
  using start_keeps_queue [of i token t env]
  by (auto simp: http_outputs_def split: effect.splits)

lemma startHttp_no_forward: "Forward e \<notin> set (snd (snd (startHttp this env)))"
  using http_outputs_start_no_forward
  by (auto simp: startHttp_def Let_def split: prod.splits) (metis snd_conv)

text \<open>The definitions that evaluate a run of the channel.\<close>

lemmas channel_defs =
  step.simps newServerConnection_def newHttpRequest_def noTimers_def
  ServerConnection_start_def ServerConnection_send_def ServerConnection_close_def
  startSocket_def startHttp_def startSocketOpenTimeout_def stopSocketOpenTimeout_def
  interceptedSocketEmit_def interceptedHttpRequestEmit_def forwardSocket_def
  socketOpenTimeoutFires_def http_outputs_def handle_truthy_def
  HttpRequest_start_def HttpRequest_send_def HttpRequest_close_def startXhrStream_def
  setHTTPTimeout_def HttpRequestLongPoll_send_def newHttpRequestLongPoll_def
  newXMLHttpRequest_def setTimeout_def clearTimeout_def clearTimeout_opt_def is_pending_def
  truthy_def js_str_def Let_def


subsection \<open>Only the current transport is heard\<close>

lemma socket_emit_forward:
  assumes "Forward e \<in> set (snd (snd (interceptedSocketEmit ev this env)))"
  shows "currentConnection this = Some WebSocket \<and> e = ev"
proof (cases "handle_truthy (socketOpenTimeout this)")
  case False
  with assms show ?thesis
    by (auto simp: interceptedSocketEmit_def forwardSocket_def split: if_splits)
next
  case True
  show ?thesis
  proof (cases ev)
    case Disconnected
    with True assms have "Forward e \<in> set (snd (snd (startHttp this env)))"
      by (simp add: interceptedSocketEmit_def)
    then show ?thesis using startHttp_no_forward by blast
  next
    case (Message m)
    with True assms show ?thesis
      by (auto simp: interceptedSocketEmit_def forwardSocket_def stopSocketOpenTimeout_def
          split: if_splits prod.splits)
  next
    case (Error x)
    with True assms show ?thesis
      by (auto simp: interceptedSocketEmit_def forwardSocket_def split: if_splits)
  next
    case (OtherEvent x)
    with True assms show ?thesis
      by (auto simp: interceptedSocketEmit_def forwardSocket_def split: if_splits)
  qed
qed

lemma socket_emit_swallowed:
  assumes "chan_inv (this, env)" "currentConnection this \<noteq> Some WebSocket"
  shows "interceptedSocketEmit ev this env = (this, env, [])"
proof -
  have "socketOpenTimeout this = None" using assms by (auto simp: chan_inv_def)
  then show ?thesis
    using assms(2) by (simp add: interceptedSocketEmit_def handle_truthy_def forwardSocket_def)
qed

text \<open>
  Claim C4. In every state the channel reaches from its creation, an event that a wrapped
  transport emits reaches the channel's own listeners only if that transport is the
  current connection, and then it is that very event; an event of a transport that is not
  the current connection is swallowed: nothing is forwarded and the channel does not
  change.
\<close>

theorem events_forwarded_only_from_current:
  "(Forward e \<in> set (snd (step (SocketEmits ev)
        (fst (run acts (newServerConnection secure host port path key, noTimers))))) \<longrightarrow>
      currentConnection (fst (fst (run acts (newServerConnection secure host port path key, noTimers))))
        = Some WebSocket \<and> e = ev) \<and>
   (Forward e \<in> set (snd (step (HttpEmits ev)
        (fst (run acts (newServerConnection secure host port path key, noTimers))))) \<longrightarrow>
      currentConnection (fst (fst (run acts (newServerConnection secure host port path key, noTimers))))
        = Some HttpRequestConnection \<and> e = ev) \<and>
   (currentConnection (fst (fst (run acts (newServerConnection secure host port path key, noTimers))))
        \<noteq> Some WebSocket \<longrightarrow>
      step (SocketEmits ev) (fst (run acts (newServerConnection secure host port path key, noTimers))) =
        (fst (run acts (newServerConnection secure host port path key, noTimers)), [])) \<and>
   (currentConnection (fst (fst (run acts (newServerConnection secure host port path key, noTimers))))
        \<noteq> Some HttpRequestConnection \<longrightarrow>
      step (HttpEmits ev) (fst (run acts (newServerConnection secure host port path key, noTimers))) =
        (fst (run acts (newServerConnection secure host port path key, noTimers)), []))"
proof -
  let ?s = "fst (run acts (newServerConnection secure host port path key, noTimers))"
  obtain this env where s: "?s = (this, env)" by (cases ?s)
  have inv: "chan_inv (this, env)"
    using run_inv [OF init_inv, of acts secure host port path key] s by simp
  have 1: "Forward e \<in> set (snd (step (SocketEmits ev) ?s)) \<longrightarrow>
      currentConnection (fst ?s) = Some WebSocket \<and> e = ev"
    using socket_emit_forward [of e ev this env] by (simp add: s snd_step)
  have 2: "Forward e \<in> set (snd (step (HttpEmits ev) ?s)) \<longrightarrow>
      currentConnection (fst ?s) = Some HttpRequestConnection \<and> e = ev"
    by (simp add: s snd_step interceptedHttpRequestEmit_def)
  have 3: "currentConnection (fst ?s) \<noteq> Some WebSocket \<longrightarrow> step (SocketEmits ev) ?s = (?s, [])"
    using socket_emit_swallowed [OF inv, of ev] by (simp add: s step.simps)
  have 4: "currentConnection (fst ?s) \<noteq> Some HttpRequestConnection \<longrightarrow>
      step (HttpEmits ev) ?s = (?s, [])"
    by (simp add: s step.simps interceptedHttpRequestEmit_def)
  show ?thesis using 1 2 3 4 by blast
qed

text \<open>A channel whose open timeout has fired.\<close>

definition fallen_back_channel :: "ServerConnection \<times> timers" where
  "fallen_back_channel =
     fst (run [ChannelStart (Some ''id'') (Some ''tok''), TimerFires 1]
            (newServerConnection False ''h'' ''9000'' ''/'' ''peerjs'', noTimers))"

lemma fallen_back_channel_current:
  "currentConnection (fst fallen_back_channel) = Some HttpRequestConnection"
  by (simp add: fallen_back_channel_def channel_defs)

theorem events_forwarded_only_from_current_witness:
  "currentConnection (fst fallen_back_channel) \<noteq> Some WebSocket \<and>
   step (SocketEmits (Message JNull)) fallen_back_channel = (fallen_back_channel, []) \<and>
   snd (step (HttpEmits (Message JNull)) fallen_back_channel) = [Forward (Message JNull)]"
proof -
  have a: "currentConnection (fst fallen_back_channel) \<noteq> Some WebSocket"
    by (simp add: fallen_back_channel_current)
  have b: "step (SocketEmits (Message JNull)) fallen_back_channel = (fallen_back_channel, [])"
    using events_forwarded_only_from_current
      [of _ "Message JNull" "[ChannelStart (Some ''id'') (Some ''tok''), TimerFires 1]"
        False "''h''" "''9000''" "''/''" "''peerjs''"] a
    unfolding fallen_back_channel_def by blast
  obtain this env where fb: "fallen_back_channel = (this, env)"
    by (cases fallen_back_channel)
  have "currentConnection this = Some HttpRequestConnection"
    using fallen_back_channel_current by (simp add: fb)
  then have c: "snd (step (HttpEmits (Message JNull)) fallen_back_channel) = [Forward (Message JNull)]"
    by (simp add: fb snd_step interceptedHttpRequestEmit_def)
  show ?thesis using a b c by blast
qed

subsection \<open>Falling back once\<close>

text \<open>
  \<open>quiet h\<close> holds of what may happen while the open timeout \<open>h\<close> runs and the socket
  stays silent: no message and no disconnect from the socket, no \<open>start\<close> and no
  \<open>close\<close>, and not the timeout \<open>h\<close> itself. \<open>no_restart\<close> holds of everything but a
  new \<open>start\<close>. \<open>primary_pending h\<close> is the state after \<open>start\<close>: the socket is
  current and \<open>h\<close> is the one pending open timeout, armed with 5000 ms.
  \<open>fallen_back\<close> is the state from the fallback on: the socket is not current and no open
  timeout is left.
\<close>

fun quiet :: "nat \<Rightarrow> action \<Rightarrow> bool" where
  "quiet h (ChannelStart i token) = False"
| "quiet h (ChannelSend d) = True"
| "quiet h ChannelClose = False"
| "quiet h (SocketEmits ev) = (case ev of Message m \<Rightarrow> False | Disconnected \<Rightarrow> False | _ \<Rightarrow> True)"
| "quiet h (HttpEmits ev) = True"
| "quiet h (TimerFires k) = (k \<noteq> h)"

fun no_restart :: "action \<Rightarrow> bool" where
  "no_restart (ChannelStart i token) = False"
| "no_restart a = True"

definition primary_pending :: "nat \<Rightarrow> ServerConnection \<times> timers \<Rightarrow> bool" where
  "primary_pending h s =
     (currentConnection (fst s) = Some WebSocket \<and>
      socketOpenTimeout (fst s) = Some h \<and>
      (h, SocketOpenTimeout, 5000) \<in> set (pending (snd s)) \<and>
      (\<forall>e \<in> set (pending (snd s)). fst (snd e) = SocketOpenTimeout \<longrightarrow> fst e = h))"

definition fallen_back :: "ServerConnection \<times> timers \<Rightarrow> bool" where
  "fallen_back s =
     (currentConnection (fst s) \<noteq> Some WebSocket \<and>
      socketOpenTimeout (fst s) = None \<and>
      (\<forall>e \<in> set (pending (snd s)). fst (snd e) \<noteq> SocketOpenTimeout))"

lemma start_primary_pending:
  assumes "chan_inv s"
  shows "\<exists>h. primary_pending h (fst (step (ChannelStart i token) s))"
proof -
  obtain this env where s: "s = (this, env)" by (cases s)
  have "chan_inv (this\<lparr>serverId := i, serverToken := token\<rparr>, env)"
    using assms s by (simp add: chan_inv_def)
  from startSocket_result [OF this] show ?thesis
    by (auto simp: s fst_step ServerConnection_start_def primary_pending_def)
qed

lemma quiet_step:
  assumes "primary_pending h s" "quiet h a"
  shows "fst (step a s) = s \<or>
     (\<exists>this'. fst (step a s) = (this', snd s) \<and>
        currentConnection this' = currentConnection (fst s) \<and>
        socketOpenTimeout this' = socketOpenTimeout (fst s))"
proof -
  obtain this env where s: "s = (this, env)" by (cases s)
  show ?thesis
  proof (cases a)
    case (ChannelSend d)
    then show ?thesis using ServerConnection_send_fields [of d this] by (simp add: s fst_step)
  next
    case (SocketEmits ev)
    with assms(2) show ?thesis
      by (cases ev) (simp_all add: s fst_step interceptedSocketEmit_def)
  next
    case (HttpEmits ev)
    then show ?thesis by (simp add: s fst_step)
  next
    case (TimerFires k)
    with assms have "\<not> is_pending k SocketOpenTimeout env"
      by (auto simp: s primary_pending_def is_pending_def)
    then show ?thesis by (simp add: s TimerFires fst_step socketOpenTimeoutFires_def)
  qed (use assms(2) in simp_all)
qed

lemma quiet_step_pending:
  assumes "primary_pending h s" "quiet h a"
  shows "primary_pending h (fst (step a s))"
  using quiet_step [OF assms] assms(1) by (auto simp: primary_pending_def)

lemma quiet_run_pending:
  "primary_pending h s \<Longrightarrow> list_all (quiet h) as \<Longrightarrow> primary_pending h (fst (run as s))"
proof (induction as arbitrary: s)
  case Nil
  then show ?case by simp
next
  case (Cons a as)
  have "primary_pending h (fst (step a s))"
    using Cons.prems by (intro quiet_step_pending) simp_all
  then have "primary_pending h (fst (run as (fst (step a s))))"
    using Cons.prems by (intro Cons.IH) simp_all
  then show ?case by (simp only: fst_run_Cons)
qed

lemma quiet_run_switches:
  "primary_pending h s \<Longrightarrow> list_all (quiet h) as \<Longrightarrow> switches as s = 0"
proof (induction as arbitrary: s)
  case Nil
  then show ?case by simp
next
  case (Cons a as)
  have p: "primary_pending h (fst (step a s))"
    using Cons.prems by (intro quiet_step_pending) simp_all
  then have "switches as (fst (step a s)) = 0"
    using Cons.prems by (intro Cons.IH) simp_all
  moreover have "currentConnection (fst (fst (step a s))) = Some WebSocket"
    using p by (simp add: primary_pending_def)
  ultimately show ?case by simp
qed

lemma timer_fires_fallback:
  assumes "primary_pending h s"
  shows "fallen_back (fst (step (TimerFires h) s))"
    and "currentConnection (fst (fst (step (TimerFires h) s))) = Some HttpRequestConnection"
proof -
  obtain this env where s: "s = (this, env)" by (cases s)
  have "(h, SocketOpenTimeout, 5000) \<in> set (pending env)"
    using assms by (simp add: s primary_pending_def)
  then have p: "is_pending h SocketOpenTimeout env"
    unfolding is_pending_def by force
  have "\<forall>e \<in> set (pending (clearTimeout h env)).
      fst (snd e) = SocketOpenTimeout \<longrightarrow> socketOpenTimeout this = Some (fst e)"
    using assms by (auto simp: s primary_pending_def)
  from startHttp_result [OF this] p
  show "fallen_back (fst (step (TimerFires h) s))"
    and "currentConnection (fst (fst (step (TimerFires h) s))) = Some HttpRequestConnection"
    by (simp_all add: s fst_step socketOpenTimeoutFires_def fallen_back_def)
qed

lemma fallen_back_step:
  assumes "fallen_back s" "no_restart a"
  shows "fallen_back (fst (step a s))"
    and "currentConnection (fst (fst (step a s))) = Some HttpRequestConnection \<longrightarrow>
         currentConnection (fst s) = Some HttpRequestConnection"
proof -
  obtain this env where s: "s = (this, env)" by (cases s)
  have inv: "chan_inv (this, env)" using assms(1) by (auto simp: s fallen_back_def chan_inv_def)
  have np: "\<not> is_pending k SocketOpenTimeout env" for k
    using assms(1) by (auto simp: s fallen_back_def is_pending_def)
  have nt: "\<not> handle_truthy (socketOpenTimeout this)"
    using assms(1) by (simp add: s fallen_back_def handle_truthy_def)
  have "fallen_back (fst (step a s)) \<and>
      (currentConnection (fst (fst (step a s))) = Some HttpRequestConnection \<longrightarrow>
       currentConnection (fst s) = Some HttpRequestConnection)"
  proof (cases a)
    case (ChannelStart i token)
    with assms(2) show ?thesis by simp
  next
    case (ChannelSend d)
    then show ?thesis
      using assms(1) ServerConnection_send_fields [of d this]
      by (simp add: s fst_step fallen_back_def)
  next
    case ChannelClose
    then show ?thesis
      using ServerConnection_close_result [OF inv]
      by (simp add: s fst_step fallen_back_def)
  next
    case (SocketEmits ev)
    then show ?thesis
      using assms(1) nt by (simp add: s fst_step interceptedSocketEmit_def)
  next
    case (HttpEmits ev)
    then show ?thesis using assms(1) by (simp add: s fst_step)
  next
    case (TimerFires k)
    then show ?thesis
      using assms(1) np by (simp add: s fst_step socketOpenTimeoutFires_def)
  qed
  then show "fallen_back (fst (step a s))"
    and "currentConnection (fst (fst (step a s))) = Some HttpRequestConnection \<longrightarrow>
         currentConnection (fst s) = Some HttpRequestConnection"
    by simp_all
qed

lemma fallen_back_run:
  "fallen_back s \<Longrightarrow> list_all no_restart as \<Longrightarrow>
   fallen_back (fst (run as s)) \<and> switches as s = 0"
proof (induction as arbitrary: s)
  case Nil
  then show ?case by simp
next
  case (Cons a as)
  have f: "fallen_back (fst (step a s))"
    and c: "currentConnection (fst (fst (step a s))) = Some HttpRequestConnection \<longrightarrow>
         currentConnection (fst s) = Some HttpRequestConnection"
    using Cons.prems fallen_back_step [of s a] by simp_all
  have "fallen_back (fst (run as (fst (step a s)))) \<and> switches as (fst (step a s)) = 0"
    using Cons.prems f by (intro Cons.IH) simp_all
  then show ?case using c by (auto simp: fst_run_Cons simp del: run.simps)
qed

lemma switches_append:
  "switches (as @ bs) s = switches as s + switches bs (fst (run as s))"
proof (induction as arbitrary: s)
  case Nil
  show ?case by simp
next
  case (Cons a as)
  show ?case by (simp add: Cons.IH fst_run_Cons del: run.simps)
qed

lemma fst_run_Nil: "fst (run [] s) = s"
  by simp

lemma fst_run_append: "fst (run (as @ bs) s) = fst (run bs (fst (run as s)))"
proof (induction as arbitrary: s)
  case Nil
  show ?case by simp
next
  case (Cons a as)
  show ?case by (simp add: Cons.IH fst_run_Cons del: run.simps)
qed

text \<open>
  Claim C2. After \<open>start\<close>, in any state of the channel, the primary socket is the
  current connection and one open timeout (5000 ms) is pending. As long as the socket
  emits neither a message nor a disconnect (and the channel is neither closed nor started
  again) the socket stays current; when the timeout then fires, the fallback transport
  becomes the current connection; and whatever follows in the session (anything but a
  new \<open>start\<close>), the socket is never the current connection again, and over the whole
  session the current connection changes to the fallback transport exactly once.
\<close>

theorem fallback_exactly_once:
  "\<exists>h. primary_pending h
          (fst (step (ChannelStart i token)
             (fst (run acts (newServerConnection secure host port path key, noTimers))))) \<and>
     (\<forall>pre post. list_all (quiet h) pre \<and> list_all no_restart post \<longrightarrow>
        currentConnection (fst (fst (run pre
          (fst (step (ChannelStart i token)
             (fst (run acts (newServerConnection secure host port path key, noTimers)))))))) =
          Some WebSocket \<and>
        currentConnection (fst (fst (run (pre @ [TimerFires h])
          (fst (step (ChannelStart i token)
             (fst (run acts (newServerConnection secure host port path key, noTimers)))))))) =
          Some HttpRequestConnection \<and>
        currentConnection (fst (fst (run (pre @ TimerFires h # post)
          (fst (step (ChannelStart i token)
             (fst (run acts (newServerConnection secure host port path key, noTimers)))))))) \<noteq>
          Some WebSocket \<and>
        switches (pre @ TimerFires h # post)
          (fst (step (ChannelStart i token)
             (fst (run acts (newServerConnection secure host port path key, noTimers))))) = 1)"
proof -
  let ?s0 = "fst (run acts (newServerConnection secure host port path key, noTimers))"
  let ?s1 = "fst (step (ChannelStart i token) ?s0)"
  have "chan_inv ?s0" by (rule run_inv [OF init_inv])
  then obtain h where h: "primary_pending h ?s1"
    using start_primary_pending by blast
  have "currentConnection (fst (fst (run pre ?s1))) = Some WebSocket \<and>
        currentConnection (fst (fst (run (pre @ [TimerFires h]) ?s1))) = Some HttpRequestConnection \<and>
        currentConnection (fst (fst (run (pre @ TimerFires h # post) ?s1))) \<noteq> Some WebSocket \<and>
        switches (pre @ TimerFires h # post) ?s1 = 1"
    if q: "list_all (quiet h) pre" and n: "list_all no_restart post" for pre post
  proof -
    let ?s2 = "fst (run pre ?s1)"
    let ?s3 = "fst (step (TimerFires h) ?s2)"
    have p2: "primary_pending h ?s2" using h q by (rule quiet_run_pending)
    have c2: "currentConnection (fst ?s2) = Some WebSocket"
      using p2 by (simp add: primary_pending_def)
    have f3: "fallen_back ?s3" and c3: "currentConnection (fst ?s3) = Some HttpRequestConnection"
      using timer_fires_fallback [OF p2] by simp_all
    have f4: "fallen_back (fst (run post ?s3))" and sw4: "switches post ?s3 = 0"
      using fallen_back_run [OF f3 n] by simp_all
    have r3: "fst (run (pre @ [TimerFires h]) ?s1) = ?s3"
      by (simp add: fst_run_append fst_run_Cons fst_run_Nil del: run.simps)
    have r4: "fst (run (pre @ TimerFires h # post) ?s1) = fst (run post ?s3)"
      by (simp add: fst_run_append fst_run_Cons del: run.simps)
    have sw: "switches (pre @ TimerFires h # post) ?s1 = 1"
      using quiet_run_switches [OF h q] c2 c3 sw4 by (simp add: switches_append)
    show ?thesis
      using c2 c3 f4 sw unfolding r3 r4 by (simp add: fallen_back_def)
  qed
  with h show ?thesis by blast
qed

text \<open>A new channel after \<open>start\<close>.\<close>

definition sample_channel :: "ServerConnection \<times> timers" where
  "sample_channel =
     fst (step (ChannelStart (Some ''id'') (Some ''tok''))
            (fst (run [] (newServerConnection False ''h'' ''9000'' ''/'' ''peerjs'', noTimers))))"

lemma sample_channel_timeout: "socketOpenTimeout (fst sample_channel) = Some 1"
  by (simp add: sample_channel_def channel_defs)

theorem fallback_exactly_once_witness:
  "currentConnection (fst (fst (run
      ([ChannelSend \<lparr>data_type = Some ''OFFER'', data_payload = ''x''\<rparr>, SocketEmits (Error ''e'')] @
       TimerFires 1 #
       [SocketEmits (Message JNull), HttpEmits (Message JNull), ChannelClose])
      sample_channel))) \<noteq> Some WebSocket \<and>
   switches
      ([ChannelSend \<lparr>data_type = Some ''OFFER'', data_payload = ''x''\<rparr>, SocketEmits (Error ''e'')] @
       TimerFires 1 #
       [SocketEmits (Message JNull), HttpEmits (Message JNull), ChannelClose])
      sample_channel = 1 \<and>
   currentConnection (fst (fst (run
      ([ChannelSend \<lparr>data_type = Some ''OFFER'', data_payload = ''x''\<rparr>, SocketEmits (Error ''e'')] @
       [TimerFires 1])
      sample_channel))) = Some HttpRequestConnection"
proof -
  let ?pre = "[ChannelSend \<lparr>data_type = Some ''OFFER'', data_payload = ''x''\<rparr>, SocketEmits (Error ''e'')]"
  let ?post = "[SocketEmits (Message JNull), HttpEmits (Message JNull), ChannelClose]"
  obtain h where h: "primary_pending h sample_channel"
    and all: "\<forall>pre post. list_all (quiet h) pre \<and> list_all no_restart post \<longrightarrow>
        currentConnection (fst (fst (run pre sample_channel))) = Some WebSocket \<and>
        currentConnection (fst (fst (run (pre @ [TimerFires h]) sample_channel))) =
          Some HttpRequestConnection \<and>
        currentConnection (fst (fst (run (pre @ TimerFires h # post) sample_channel))) \<noteq>
          Some WebSocket \<and>
        switches (pre @ TimerFires h # post) sample_channel = 1"
    using fallback_exactly_once [of "Some ''id''" "Some ''tok''" "[]" False "''h''" "''9000''" "''/''" "''peerjs''"]
    unfolding sample_channel_def by blast
  have "socketOpenTimeout (fst sample_channel) = Some h"
    using h by (simp add: primary_pending_def)
  then have h1: "h = 1" using sample_channel_timeout by simp
  have q: "list_all (quiet h) ?pre \<and> list_all no_restart ?post" by simp
  show ?thesis using all q unfolding h1 by blast
qed


section \<open>BaseConnection: the close timeout\<close>

text \<open>
  \<open>BaseConnection\<close> (\<open>src/unnamed/part_000\<close>): the fields \<open>_open\<close> (read through the
  getter \<open>open\<close>), \<open>reconnectTimeoutId\<close> (initially 0) and \<open>reconnectable\<close>. The
  abstract \<open>close\<close> is a call handed to the subclass.
\<close>

record BaseConnection =
  conn_open :: bool
  reconnectTimeoutId :: nat
  reconnectable :: bool

definition newBaseConnection :: BaseConnection where
  "newBaseConnection = \<lparr>conn_open = False, reconnectTimeoutId = 0, reconnectable = False\<rparr>"

definition setCloseTimeout :: "BaseConnection \<Rightarrow> timers \<Rightarrow> bool \<times> BaseConnection \<times> timers" where
  "setCloseTimeout this env =
     (if \<not> reconnectable this \<or> \<not> conn_open this then (False, this, env)
      else if reconnectTimeoutId this \<noteq> 0 then (True, this, env)
      else (case setTimeout CloseTimeout 15000 env of
              (h, env') \<Rightarrow> (True, this\<lparr>reconnectTimeoutId := h\<rparr>, env')))"

definition clearCloseTimeout :: "BaseConnection \<Rightarrow> timers \<Rightarrow> BaseConnection \<times> timers" where
  "clearCloseTimeout this env =
     (this\<lparr>reconnectTimeoutId := 0\<rparr>, clearTimeout (reconnectTimeoutId this) env)"

datatype call = Close

definition closeTimeoutCallback :: "BaseConnection \<Rightarrow> call list" where
  "closeTimeoutCallback this = (if conn_open this then [Close] else [])"

definition closeTimeoutFires :: "nat \<Rightarrow> BaseConnection \<Rightarrow> timers \<Rightarrow> call list \<times> timers" where
  "closeTimeoutFires h this env =
     (if is_pending h CloseTimeout env
      then (closeTimeoutCallback this, clearTimeout h env)
      else ([], env))"

text \<open>
  Claim C6. \<open>setCloseTimeout\<close> returns false and changes nothing (no timer is armed) when
  the connection is not reconnectable or not open. When it is both, the call returns true
  and leaves a non-zero timer handle; a second call then returns true and changes neither
  the connection nor the timers. From a connection with no handle the first call arms
  exactly one timer.
\<close>

theorem setCloseTimeout_guard_and_idempotent:
  "(\<not> reconnectable this \<or> \<not> conn_open this \<longrightarrow> setCloseTimeout this env = (False, this, env)) \<and>
   (reconnectable this \<and> conn_open this \<longrightarrow>
      (case setCloseTimeout this env of
         (r1, this1, env1) \<Rightarrow>
           r1 \<and> reconnectTimeoutId this1 \<noteq> 0 \<and>
           setCloseTimeout this1 env1 = (True, this1, env1) \<and>
           (reconnectTimeoutId this = 0 \<longrightarrow>
              pending env1 = pending env @ [(reconnectTimeoutId this1, CloseTimeout, 15000)]) \<and>
           (reconnectTimeoutId this \<noteq> 0 \<longrightarrow> this1 = this \<and> env1 = env)))"
  by (auto simp: setCloseTimeout_def setTimeout_def)

theorem setCloseTimeout_guard_and_idempotent_witness:
  "setCloseTimeout \<lparr>conn_open = False, reconnectTimeoutId = 0, reconnectable = True\<rparr>
      \<lparr>created = 0, pending = []\<rparr> =
     (False, \<lparr>conn_open = False, reconnectTimeoutId = 0, reconnectable = True\<rparr>,
      \<lparr>created = 0, pending = []\<rparr>) \<and>
   (case setCloseTimeout \<lparr>conn_open = True, reconnectTimeoutId = 0, reconnectable = True\<rparr>
      \<lparr>created = 0, pending = []\<rparr> of
      (r1, this1, env1) \<Rightarrow>
        r1 \<and> setCloseTimeout this1 env1 = (True, this1, env1) \<and>
        pending env1 = [(reconnectTimeoutId this1, CloseTimeout, 15000)])"
proof -
  let ?c0 = "\<lparr>conn_open = False, reconnectTimeoutId = 0, reconnectable = True\<rparr>"
  let ?c1 = "\<lparr>conn_open = True, reconnectTimeoutId = 0, reconnectable = True\<rparr>"
  let ?e = "\<lparr>created = 0, pending = []\<rparr>"
  have a: "\<not> reconnectable ?c0 \<or> \<not> conn_open ?c0" by simp
  have b: "setCloseTimeout ?c0 ?e = (False, ?c0, ?e)"
    using setCloseTimeout_guard_and_idempotent [of ?c0 ?e] a by blast
  have c: "reconnectable ?c1 \<and> conn_open ?c1 \<and> reconnectTimeoutId ?c1 = 0 \<and> pending ?e = []" by simp
  have d: "case setCloseTimeout ?c1 ?e of
      (r1, this1, env1) \<Rightarrow>
        r1 \<and> setCloseTimeout this1 env1 = (True, this1, env1) \<and>
        pending env1 = [(reconnectTimeoutId this1, CloseTimeout, 15000)]"
    using setCloseTimeout_guard_and_idempotent [of ?c1 ?e] c by (auto split: prod.splits)
  show ?thesis using b d by blast
qed

text \<open>
  Claim C7, as the code has it. The callback of the close timeout reads \<open>open\<close> only: a
  pending timeout that fires calls \<open>close\<close> exactly when the connection is open at that
  moment, whatever \<open>reconnectable\<close> is then; a timeout that is not pending does nothing.
\<close>

theorem closeTimeout_fires_on_open_only:
  "(is_pending h CloseTimeout env \<longrightarrow>
      (fst (closeTimeoutFires h this env) = [Close] \<longleftrightarrow> conn_open this) \<and>
      (\<not> conn_open this \<longrightarrow> fst (closeTimeoutFires h this env) = []) \<and>
      closeTimeoutFires h (this\<lparr>reconnectable := b\<rparr>) env = closeTimeoutFires h this env) \<and>
   (\<not> is_pending h CloseTimeout env \<longrightarrow> closeTimeoutFires h this env = ([], env))"
  by (simp add: closeTimeoutFires_def closeTimeoutCallback_def)

theorem closeTimeout_fires_on_open_only_witness:
  "is_pending 1 CloseTimeout \<lparr>created = 1, pending = [(1, CloseTimeout, 15000)]\<rparr> \<and>
   fst (closeTimeoutFires 1 \<lparr>conn_open = True, reconnectTimeoutId = 1, reconnectable = True\<rparr>
      \<lparr>created = 1, pending = [(1, CloseTimeout, 15000)]\<rparr>) = [Close] \<and>
   fst (closeTimeoutFires 1 \<lparr>conn_open = False, reconnectTimeoutId = 1, reconnectable = True\<rparr>
      \<lparr>created = 1, pending = [(1, CloseTimeout, 15000)]\<rparr>) = [] \<and>
   closeTimeoutFires 1 \<lparr>conn_open = True, reconnectTimeoutId = 1, reconnectable = True\<rparr>
      \<lparr>created = 1, pending = []\<rparr> = ([], \<lparr>created = 1, pending = []\<rparr>)"
proof -
  let ?e = "\<lparr>created = 1, pending = [(1, CloseTimeout, 15000)]\<rparr>"
  let ?e' = "\<lparr>created = 1, pending = []\<rparr>"
  let ?c = "\<lparr>conn_open = True, reconnectTimeoutId = 1, reconnectable = True\<rparr>"
  let ?d = "\<lparr>conn_open = False, reconnectTimeoutId = 1, reconnectable = True\<rparr>"
  have a: "is_pending 1 CloseTimeout ?e \<and> conn_open ?c \<and> \<not> conn_open ?d \<and>
      \<not> is_pending 1 CloseTimeout ?e'"
    by (simp add: is_pending_def)
  have b: "fst (closeTimeoutFires 1 ?c ?e) = [Close]"
    using closeTimeout_fires_on_open_only [of 1 ?e ?c] a by blast
  have c: "fst (closeTimeoutFires 1 ?d ?e) = []"
    using closeTimeout_fires_on_open_only [of 1 ?e ?d] a by blast
  have d: "closeTimeoutFires 1 ?c ?e' = ([], ?e')"
    using closeTimeout_fires_on_open_only [of 1 ?e' ?c] a by blast
  show ?thesis using a b c d by blast
qed

text \<open>
  The claim fails on \<open>reconnectable\<close>: a timeout armed while the connection is open and
  reconnectable still calls \<open>close\<close> when the public field \<open>reconnectable\<close> has been set
  to false before it fires.
\<close>

theorem closeTimeout_closes_when_not_reconnectable:
  "setCloseTimeout \<lparr>conn_open = True, reconnectTimeoutId = 0, reconnectable = True\<rparr>
      \<lparr>created = 0, pending = []\<rparr> =
     (True, \<lparr>conn_open = True, reconnectTimeoutId = 1, reconnectable = True\<rparr>,
      \<lparr>created = 1, pending = [(1, CloseTimeout, 15000)]\<rparr>) \<and>
   \<not> reconnectable
      (\<lparr>conn_open = True, reconnectTimeoutId = 1, reconnectable = True\<rparr>\<lparr>reconnectable := False\<rparr>) \<and>
   fst (closeTimeoutFires 1
      (\<lparr>conn_open = True, reconnectTimeoutId = 1, reconnectable = True\<rparr>\<lparr>reconnectable := False\<rparr>)
      \<lparr>created = 1, pending = [(1, CloseTimeout, 15000)]\<rparr>) = [Close]"
  by (simp add: setCloseTimeout_def setTimeout_def closeTimeoutFires_def closeTimeoutCallback_def
      is_pending_def)

end
